theory Spec2Isabelle
  imports Main
begin

section \<open>The crawler of \<^verbatim>\<open>crawler.user.js\<close>\<close>

text \<open>
  The userscript keeps one mutable \<^verbatim>\<open>state\<close> object and one constant \<^verbatim>\<open>CONFIG\<close>
  object. Here the state is a record that every operation takes and returns, and
  \<^verbatim>\<open>CONFIG\<close> is a record passed to every operation. The browser (the \<^verbatim>\<open>URL\<close> and
  \<^verbatim>\<open>RegExp\<close> constructors, \<^verbatim>\<open>window.location\<close>) is not code of the script: it is a
  record of functions, \<open>env\<close>, that the operations receive. What a built-in throws is
  the value \<open>None\<close>, and each \<^verbatim>\<open>try/catch\<close> of the script is the case distinction on it.

  JavaScript is single-threaded: between two \<^verbatim>\<open>await\<close>s a function runs alone, and
  at an \<^verbatim>\<open>await\<close> it is suspended while the buttons stay live and other calls go on.
  A session is therefore the state together with the calls that are suspended, and
  one step is one click or the resumption of one suspended call, which then runs to
  its next \<^verbatim>\<open>await\<close> or to its end. Several calls of \<^verbatim>\<open>crawlCurrentPage\<close> and several
  loops of \<^verbatim>\<open>runQueue\<close> can be suspended at once.
\<close>

subsection \<open>JavaScript strings, sets and numbers\<close>

definition startsWith :: "string \<Rightarrow> string \<Rightarrow> bool" where
  "startsWith s p = (take (length p) s = p)"

definition endsWith :: "string \<Rightarrow> string \<Rightarrow> bool" where
  "endsWith s p = (drop (length s - length p) s = p \<and> length p \<le> length s)"

text \<open>\<^verbatim>\<open>item.slice(1, -1)\<close>: the string without its first and last character.\<close>

definition slice_1_m1 :: "string \<Rightarrow> string" where
  "slice_1_m1 s = butlast (tl s)"

text \<open>
  A JavaScript \<^verbatim>\<open>Set\<close> of strings keeps its elements in insertion order and holds
  none twice: a list, with \<^verbatim>\<open>add\<close> appending an element only when it is new.
\<close>

definition Set_has :: "'a list \<Rightarrow> 'a \<Rightarrow> bool" where
  "Set_has xs x = (x \<in> set xs)"

definition Set_add :: "'a list \<Rightarrow> 'a \<Rightarrow> 'a list" where
  "Set_add xs x = (if Set_has xs x then xs else xs @ [x])"

definition Set_delete :: "'a list \<Rightarrow> 'a \<Rightarrow> 'a list" where
  "Set_delete xs x = removeAll x xs"

definition Set_new :: "'a list \<Rightarrow> 'a list" where
  "Set_new xs = foldl Set_add [] xs"

text \<open>\<^verbatim>\<open>String(n)\<close> for a non-negative integer, and \<^verbatim>\<open>padStart(4, '0')\<close>.\<close>

definition digit_char :: "nat \<Rightarrow> char" where
  "digit_char d = char_of (48 + d)"

function String_of :: "nat \<Rightarrow> string" where
  "String_of n = (if n < 10 then [digit_char n] else String_of (n div 10) @ [digit_char (n mod 10)])"
  by pat_completeness auto
termination
  by (relation "measure id") auto

declare String_of.simps [simp del]

definition padStart :: "string \<Rightarrow> nat \<Rightarrow> char \<Rightarrow> string" where
  "padStart s n c = replicate (n - length s) c @ s"

subsection \<open>Configuration, state and the browser\<close>

record config =
  maxDepth :: nat
  maxPages :: nat
  delayMs :: nat
  domainAllowlist :: "string list"
  postEndpoint :: string

text \<open>The defaults of the script; \<^verbatim>\<open>window.location.host\<close> is a parameter.\<close>

definition CONFIG :: "string \<Rightarrow> config" where
  "CONFIG host = \<lparr> maxDepth = 2, maxPages = 50, delayMs = 1500,
     domainAllowlist = [host], postEndpoint = [] \<rparr>"

record entry =
  url :: string
  depth :: nat

record state =
  isRunning :: bool
  isPaused :: bool
  isStopping :: bool
  startTime :: "int option"
  pagesVisited :: nat
  queue :: "entry list"
  visited :: "string list"
  allowlist :: "string list"
  dynamicAllowlist :: "string list"

text \<open>A parsed URL, as far as the script reads it.\<close>

record url_object =
  href :: string
  origin :: string
  hostname :: string

text \<open>
  \<open>URL_new input base\<close> is \<^verbatim>\<open>new URL(input, base)\<close>, \<open>None\<close> when it throws;
  \<open>URL_clear_hash\<close> is the assignment \<^verbatim>\<open>url.hash = ''\<close>; \<open>RegExp_new src\<close> is
  \<^verbatim>\<open>new RegExp(src)\<close>, \<open>None\<close> when the pattern is malformed and otherwise the
  function \<^verbatim>\<open>regex.test\<close>.
\<close>

record env =
  URL_new :: "string \<Rightarrow> string \<Rightarrow> url_object option"
  URL_clear_hash :: "url_object \<Rightarrow> url_object"
  RegExp_new :: "string \<Rightarrow> (string \<Rightarrow> bool) option"
  location_href :: string
  location_origin :: string
  location_host :: string

text \<open>
  The \<^verbatim>\<open>state\<close> literal the script starts with. Its fields \<^verbatim>\<open>visitLimit\<close> (never
  read), \<^verbatim>\<open>iframe\<close>, \<^verbatim>\<open>idleTrackers\<close> and \<^verbatim>\<open>controls\<close> (the page's widgets) are left
  out of the record.
\<close>

definition initial_state :: "env \<Rightarrow> config \<Rightarrow> state" where
  "initial_state e cfg = \<lparr> isRunning = False, isPaused = False, isStopping = False,
     startTime = None, pagesVisited = 0, queue = [], visited = [],
     allowlist = Set_new (domainAllowlist cfg), dynamicAllowlist = [] \<rparr>"

subsection \<open>The allowlist matcher\<close>

definition normalizeUrl :: "env \<Rightarrow> string \<Rightarrow> string" where
  "normalizeUrl e input =
     (case URL_new e input (location_origin e) of
        None \<Rightarrow> input
      | Some u \<Rightarrow> href (URL_clear_hash e u))"

text \<open>The callback of \<^verbatim>\<open>[...state.allowlist].some(...)\<close> in \<^verbatim>\<open>isAllowedUrl\<close>.\<close>

definition allowlist_item_test :: "env \<Rightarrow> url_object \<Rightarrow> string \<Rightarrow> bool" where
  "allowlist_item_test e target item =
     (if item = [] then False
      else if startsWith item ''/'' \<and> endsWith item ''/'' \<and> length item > 2 then
        (case RegExp_new e (slice_1_m1 item) of
           None \<Rightarrow> False
         | Some regex_test \<Rightarrow> regex_test (hostname target))
      else hostname target = item)"

definition isAllowedUrl :: "env \<Rightarrow> state \<Rightarrow> string \<Rightarrow> bool" where
  "isAllowedUrl e s u =
     (case URL_new e u (location_href e) of
        None \<Rightarrow> False
      | Some target \<Rightarrow>
          if origin target \<noteq> location_origin e then False
          else list_ex (allowlist_item_test e target) (allowlist s))"

text \<open>Line 377: the entries that \<^verbatim>\<open>isAllowedUrl\<close> compiles to a regular expression.\<close>

definition is_regex_item :: "string \<Rightarrow> bool" where
  "is_regex_item item = (startsWith item ''/'' \<and> endsWith item ''/'' \<and> length item > 2)"

text \<open>
  The matcher as the specification words it, to be compared with \<^verbatim>\<open>isAllowedUrl\<close>: an
  address is allowed when its origin is the starting origin and its hostname matches
  an entry, where an entry delimited by two \<^verbatim>\<open>/\<close> is compiled to a regular expression
  and tested on the hostname, and any other entry must equal the hostname.
\<close>

definition delimited_as_claimed :: "string \<Rightarrow> bool" where
  "delimited_as_claimed item = (length item \<ge> 2 \<and> hd item = CHR ''/'' \<and> last item = CHR ''/'')"

definition entry_matches_claimed :: "env \<Rightarrow> string \<Rightarrow> string \<Rightarrow> bool" where
  "entry_matches_claimed e host item =
     (if delimited_as_claimed item then
        (case RegExp_new e (slice_1_m1 item) of
           None \<Rightarrow> False
         | Some regex_test \<Rightarrow> regex_test host)
      else host = item)"

definition isAllowed_claimed :: "env \<Rightarrow> state \<Rightarrow> string \<Rightarrow> bool" where
  "isAllowed_claimed e s u =
     (case URL_new e u (location_href e) of
        None \<Rightarrow> False
      | Some target \<Rightarrow>
          origin target = location_origin e \<and>
          list_ex (entry_matches_claimed e (hostname target)) (allowlist s))"

subsection \<open>The frontier\<close>

text \<open>
  The callback of \<^verbatim>\<open>anchors.forEach\<close> in \<^verbatim>\<open>enqueueLinks\<close>, for the \<^verbatim>\<open>href\<close> attribute
  of one anchor. Every \<^verbatim>\<open>return\<close> and the \<^verbatim>\<open>catch\<close> leave the state as it is.
\<close>

definition enqueue_anchor :: "env \<Rightarrow> config \<Rightarrow> string \<Rightarrow> nat \<Rightarrow> state \<Rightarrow> string \<Rightarrow> state" where
  "enqueue_anchor e cfg baseUrl currentDepth s h =
     (if h = [] \<or> startsWith h ''javascript:'' \<or> startsWith h ''mailto:'' then s
      else case URL_new e h baseUrl of
        None \<Rightarrow> s
      | Some u \<Rightarrow>
          let absoluteUrl = normalizeUrl e (href u) in
          if \<not> isAllowedUrl e s absoluteUrl then s
          else if Set_has (visited s) absoluteUrl then s
          else if list_ex (\<lambda>item. url item = absoluteUrl) (queue s) then s
          else if length (queue s) + pagesVisited s \<ge> maxPages cfg then s
          else s\<lparr>queue := queue s @ [\<lparr>url = absoluteUrl, depth = currentDepth + 1\<rparr>]\<rparr>)"

text \<open>A document is the list of the \<^verbatim>\<open>href\<close> attributes of its \<^verbatim>\<open>a[href]\<close> elements.\<close>

definition enqueueLinks :: "env \<Rightarrow> config \<Rightarrow> string list \<Rightarrow> string \<Rightarrow> nat \<Rightarrow> state \<Rightarrow> state" where
  "enqueueLinks e cfg doc baseUrl currentDepth s =
     (if currentDepth + 1 > maxDepth cfg then s
      else foldl (enqueue_anchor e cfg baseUrl currentDepth) s doc)"

subsection \<open>The delivery pipeline\<close>

record payload =
  payload_url :: string
  timestamp :: string
  html :: string
  screenshot :: string

text \<open>
  What the outside answers to one delivery: \<open>fetch_POST\<close> is the outcome of
  \<^verbatim>\<open>fetch(endpoint, ...)\<close>, \<open>GM_xmlhttpRequest\<close> the outcome of the privileged
  request (\<open>None\<close> when \<^verbatim>\<open>GM_xmlhttpRequest\<close> is not a function), and \<open>gmDownload name\<close>
  tells whether the promise of \<^verbatim>\<open>gmDownload(_, name)\<close> resolves (the file is saved)
  or rejects.
\<close>

datatype http_outcome = NetworkError | Response nat

record transport =
  fetch_POST :: http_outcome
  GM_xmlhttpRequest :: "http_outcome option"
  gmDownload :: "string \<Rightarrow> bool"

text \<open>What a delivery does to the outside, in order.\<close>

datatype effect = Fetch_request | GM_request | Saved string | Save_failed string

datatype error = Error

text \<open>A promise that resolves with \<open>x\<close> is \<open>Inr x\<close>; one that rejects is \<open>Inl Error\<close>.\<close>

definition gmPost :: "transport \<Rightarrow> effect list \<times> (error + bool)" where
  "gmPost t =
     (case GM_xmlhttpRequest t of
        None \<Rightarrow> ([], Inl Error)
      | Some NetworkError \<Rightarrow> ([GM_request], Inl Error)
      | Some (Response status) \<Rightarrow>
          if status \<ge> 200 \<and> status < 300 then ([GM_request], Inr True)
          else ([GM_request], Inl Error))"

definition response_ok :: "nat \<Rightarrow> bool" where
  "response_ok status = (200 \<le> status \<and> status \<le> 299)"

definition postPayload :: "config \<Rightarrow> transport \<Rightarrow> effect list \<times> bool" where
  "postPayload cfg t =
     (if postEndpoint cfg = [] then ([], False)
      else case (case fetch_POST t of
                   NetworkError \<Rightarrow> Inl Error
                 | Response status \<Rightarrow> if \<not> response_ok status then Inl Error else Inr True) of
        Inr b \<Rightarrow> ([Fetch_request], b)
      | Inl err \<Rightarrow>
          (case gmPost t of
             (fx, Inr b) \<Rightarrow> (Fetch_request # fx, b)
           | (fx, Inl gmErr) \<Rightarrow> (Fetch_request # fx, False)))"

definition downloadPayload :: "transport \<Rightarrow> string \<Rightarrow> string \<Rightarrow> effect list \<times> (error + unit)" where
  "downloadPayload t htmlFilename pngFilename =
     (if \<not> gmDownload t htmlFilename then ([Save_failed htmlFilename], Inl Error)
      else if \<not> gmDownload t pngFilename then
        ([Saved htmlFilename, Save_failed pngFilename], Inl Error)
      else ([Saved htmlFilename, Saved pngFilename], Inr ()))"

text \<open>Line 613: \<^verbatim>\<open>String(state.pagesVisited + 1).padStart(4, '0')\<close>.\<close>

definition page_index :: "state \<Rightarrow> string" where
  "page_index s = padStart (String_of (pagesVisited s + 1)) 4 (CHR ''0'')"

definition handleOutput :: "config \<Rightarrow> transport \<Rightarrow> state \<Rightarrow> payload option \<Rightarrow> effect list \<times> (error + unit)" where
  "handleOutput cfg t s p =
     (case p of
        None \<Rightarrow> ([], Inr ())
      | Some pl \<Rightarrow>
          let index = page_index s;
              htmlFilename = ''page-'' @ index @ ''.html'';
              pngFilename = ''page-'' @ index @ ''.png''
          in if postEndpoint cfg \<noteq> [] then
               (case postPayload cfg t of
                  (fx, True) \<Rightarrow> (fx, Inr ())
                | (fx, False) \<Rightarrow>
                    (case downloadPayload t htmlFilename pngFilename of
                       (fx', res) \<Rightarrow> (fx @ fx', res)))
             else downloadPayload t htmlFilename pngFilename)"

text \<open>
  What one reads off the effects of a delivery: the names of the files that were
  saved, in order, and the number of requests sent to the endpoint. And the direct
  POST failing: \<^verbatim>\<open>fetch\<close> rejects, or the response is not \<^verbatim>\<open>ok\<close>.
\<close>

definition persisted :: "effect list \<Rightarrow> string list" where
  "persisted fx = concat (map (\<lambda>x. case x of Saved name \<Rightarrow> [name] | _ \<Rightarrow> []) fx)"

definition network_attempts :: "effect list \<Rightarrow> nat" where
  "network_attempts fx = length (filter (\<lambda>x. x = Fetch_request \<or> x = GM_request) fx)"

definition fetch_failed :: "transport \<Rightarrow> bool" where
  "fetch_failed t =
     (case fetch_POST t of NetworkError \<Rightarrow> True | Response status \<Rightarrow> \<not> response_ok status)"

subsection \<open>The crawl loop and the control operations\<close>

text \<open>
  What \<^verbatim>\<open>visitInIframe\<close> resolves with, and what \<^verbatim>\<open>waitForSettled\<close> and \<^verbatim>\<open>capturePage\<close>
  give for the window itself: a payload and a document, or nothing (\<open>None\<close>: the
  timeout, or an exception while capturing). The document stands for the anchors
  that \<^verbatim>\<open>enqueueLinks\<close> finds in it when it is called; the payload has no part in what
  happens to the state.
\<close>

record page =
  page_payload :: payload
  page_document :: "string list"

definition crawlCurrentPage :: "env \<Rightarrow> config \<Rightarrow> page option \<Rightarrow> transport \<Rightarrow> state \<Rightarrow> state" where
  "crawlCurrentPage e cfg capture t s =
     (let currentUrl = normalizeUrl e (location_href e) in
      if Set_has (visited s) currentUrl then s
      else case capture of
        None \<Rightarrow> s
      | Some pg \<Rightarrow>
          (case snd (handleOutput cfg t s (Some (page_payload pg))) of
             Inl err \<Rightarrow> s
           | Inr _ \<Rightarrow>
               enqueueLinks e cfg (page_document pg) currentUrl 0
                 (s\<lparr>visited := Set_add (visited s) currentUrl,
                    pagesVisited := pagesVisited s + 1\<rparr>)))"

text \<open>Lines 284 to 292 of \<^verbatim>\<open>startCrawl\<close>: the reset and the seed.\<close>

definition startCrawl_reset :: "env \<Rightarrow> config \<Rightarrow> int \<Rightarrow> state \<Rightarrow> state" where
  "startCrawl_reset e cfg now s =
     (let s1 = s\<lparr>isRunning := True, isPaused := False, isStopping := False,
                  startTime := Some now, pagesVisited := 0, queue := [], visited := [],
                  allowlist := Set_new (filter (\<lambda>x. x \<noteq> [])
                    (domainAllowlist cfg @ dynamicAllowlist s @ [location_host e]))\<rparr>
      in s1\<lparr>queue := queue s1 @ [\<lparr>url = normalizeUrl e (location_href e), depth = 0\<rparr>]\<rparr>)"

text \<open>
  \<^verbatim>\<open>startCrawl\<close> up to its last statement, when nothing else runs during its
  \<^verbatim>\<open>await\<close>s: the guard, the reset and \<^verbatim>\<open>crawlCurrentPage\<close> above.
\<close>

definition startCrawl :: "env \<Rightarrow> config \<Rightarrow> int \<Rightarrow> page option \<Rightarrow> transport \<Rightarrow> state \<Rightarrow> state" where
  "startCrawl e cfg now capture t s =
     (if isRunning s then s
      else crawlCurrentPage e cfg capture t (startCrawl_reset e cfg now s))"

text \<open>
  The body of the \<^verbatim>\<open>while\<close> loop of \<^verbatim>\<open>runQueue\<close>, lines 323 to 343, when nothing
  else runs during its \<^verbatim>\<open>await\<close>s. The loop condition keeps the queue non-empty there.
\<close>

definition runQueue_body :: "env \<Rightarrow> config \<Rightarrow> page option \<Rightarrow> transport \<Rightarrow> state \<Rightarrow> state" where
  "runQueue_body e cfg pageData t s =
     (case queue s of
        [] \<Rightarrow> s
      | item # rest \<Rightarrow>
          let s1 = s\<lparr>queue := rest\<rparr> in
          if Set_has (visited s1) (url item) then s1
          else if depth item > maxDepth cfg then s1
          else case pageData of
            None \<Rightarrow> s1
          | Some pg \<Rightarrow>
              (case snd (handleOutput cfg t s1 (Some (page_payload pg))) of
                 Inl err \<Rightarrow> s1
               | Inr _ \<Rightarrow>
                   let s2 = enqueueLinks e cfg (page_document pg) (url item) (depth item) s1
                   in s2\<lparr>visited := Set_add (visited s2) (url item),
                         pagesVisited := pagesVisited s2 + 1\<rparr>))"

text \<open>Line 350: what \<^verbatim>\<open>runQueue\<close> does when the loop is left.\<close>

definition runQueue_exit :: "config \<Rightarrow> state \<Rightarrow> state" where
  "runQueue_exit cfg s = s\<lparr>isRunning := (queue s \<noteq> [] \<and> pagesVisited s < maxPages cfg)\<rparr>"

text \<open>
  What a suspended call waits for. A call of \<^verbatim>\<open>crawlCurrentPage\<close> waits for
  \<^verbatim>\<open>waitForSettled\<close> and \<^verbatim>\<open>capturePage\<close> (lines 307 and 308, between which the state is
  not touched), then for \<^verbatim>\<open>handleOutput\<close> (line 309), then for the delay (line 313). A
  loop of \<^verbatim>\<open>runQueue\<close> waits for \<^verbatim>\<open>visitInIframe\<close> (line 332) with the entry it took
  from the queue, then for \<^verbatim>\<open>handleOutput\<close> (line 336), then for the delay (line 348);
  and the timer of line 352 waits to call \<^verbatim>\<open>runQueue\<close>. \<^verbatim>\<open>handleOutput\<close> reads the
  state only when it is called, so a call that waits for it carries how its promise
  will settle.
\<close>

datatype task =
    Current_capturing
  | Current_delivering page "error + unit"
  | Current_delaying
  | Loop_visiting entry
  | Loop_delivering entry page "error + unit"
  | Loop_delaying
  | Loop_scheduled

text \<open>Lines 350 to 356: the loop is left; the timer is set when the session goes on.\<close>

definition runQueue_leave :: "config \<Rightarrow> state \<Rightarrow> state \<times> task list" where
  "runQueue_leave cfg s =
     (let s' = runQueue_exit cfg s
      in (s', if isRunning s' \<and> \<not> isPaused s' \<and> \<not> isStopping s' then [Loop_scheduled] else []))"

text \<open>
  From the loop condition, line 321, to the next \<^verbatim>\<open>await\<close>: entries are taken from
  the queue, those visited or too deep are passed over (\<^verbatim>\<open>continue\<close>), and the loop
  is suspended in \<^verbatim>\<open>visitInIframe\<close> with the first that is neither.
\<close>

function runQueue_loop :: "config \<Rightarrow> state \<Rightarrow> state \<times> task list" where
  "runQueue_loop cfg s =
     (case queue s of
        [] \<Rightarrow> runQueue_leave cfg s
      | item # rest \<Rightarrow>
          if pagesVisited s < maxPages cfg then
            if isPaused s \<or> isStopping s then runQueue_leave cfg s
            else let s1 = s\<lparr>queue := rest\<rparr> in
                 if Set_has (visited s1) (url item) then runQueue_loop cfg s1
                 else if depth item > maxDepth cfg then runQueue_loop cfg s1
                 else (s1, [Loop_visiting item])
          else runQueue_leave cfg s)"
  by pat_completeness auto
termination
  by (relation "measure (\<lambda>(cfg, s). length (queue s))") auto

declare runQueue_loop.simps [simp del]

text \<open>\<^verbatim>\<open>runQueue\<close> from its call: the guard of line 320, then the loop.\<close>

definition runQueue :: "config \<Rightarrow> state \<Rightarrow> state \<times> task list" where
  "runQueue cfg s =
     (if \<not> isRunning s \<or> isPaused s \<or> isStopping s then (s, [])
      else runQueue_loop cfg s)"

text \<open>Lines 344 to 348, after the \<^verbatim>\<open>try\<close>: the break on the budget, or the delay.\<close>

definition runQueue_after :: "config \<Rightarrow> state \<Rightarrow> state \<times> task list" where
  "runQueue_after cfg s =
     (if pagesVisited s \<ge> maxPages cfg then runQueue_leave cfg s
      else (s, [Loop_delaying]))"

text \<open>Lines 295 to 297: what \<^verbatim>\<open>startCrawl\<close> does once \<^verbatim>\<open>crawlCurrentPage\<close> has returned.\<close>

definition startCrawl_tail :: "config \<Rightarrow> state \<Rightarrow> state \<times> task list" where
  "startCrawl_tail cfg s = (if \<not> isStopping s then runQueue cfg s else (s, []))"

text \<open>
  \<^verbatim>\<open>crawlCurrentPage\<close> from its call to its first \<^verbatim>\<open>await\<close>, lines 302 to 307. When it
  returns at once, \<^verbatim>\<open>startCrawl\<close> goes on.
\<close>

definition crawlCurrentPage_call :: "env \<Rightarrow> config \<Rightarrow> state \<Rightarrow> state \<times> task list" where
  "crawlCurrentPage_call e cfg s =
     (if Set_has (visited s) (normalizeUrl e (location_href e)) then startCrawl_tail cfg s
      else (s, [Current_capturing]))"

text \<open>
  What settles an \<^verbatim>\<open>await\<close>: the capture of a page (a page, or nothing: for
  \<^verbatim>\<open>crawlCurrentPage\<close> an exception in \<^verbatim>\<open>waitForSettled\<close> or \<^verbatim>\<open>capturePage\<close>, for the loop
  \<^verbatim>\<open>visitInIframe\<close> resolving with \<^verbatim>\<open>null\<close>) together with what the outside will answer
  to the delivery that follows it; the promise of \<^verbatim>\<open>visitInIframe\<close> rejecting, which
  the \<^verbatim>\<open>catch\<close> of line 341 takes; the promise of \<^verbatim>\<open>handleOutput\<close> settling; a timer.
\<close>

datatype answer =
    Page_result "page option" transport
  | Threw
  | Output_settled
  | Timer_fired

text \<open>
  A suspended call goes on, to its next \<^verbatim>\<open>await\<close> or to its end: the new state, and
  what the call waits for next (nothing when it has ended). An answer that the call
  does not wait for leaves everything as it is.
\<close>

fun resume :: "env \<Rightarrow> config \<Rightarrow> state \<Rightarrow> task \<Rightarrow> answer \<Rightarrow> state \<times> task list" where
  "resume e cfg s Current_capturing (Page_result None t) = startCrawl_tail cfg s"
| "resume e cfg s Current_capturing (Page_result (Some pg) t) =
     (s, [Current_delivering pg (snd (handleOutput cfg t s (Some (page_payload pg))))])"
| "resume e cfg s (Current_delivering pg (Inl err)) Output_settled = startCrawl_tail cfg s"
| "resume e cfg s (Current_delivering pg (Inr ok)) Output_settled =
     (let currentUrl = normalizeUrl e (location_href e)
      in (enqueueLinks e cfg (page_document pg) currentUrl 0
            (s\<lparr>visited := Set_add (visited s) currentUrl,
               pagesVisited := pagesVisited s + 1\<rparr>),
          [Current_delaying]))"
| "resume e cfg s Current_delaying Timer_fired = startCrawl_tail cfg s"
| "resume e cfg s (Loop_visiting item) (Page_result None t) = runQueue_loop cfg s"
| "resume e cfg s (Loop_visiting item) (Page_result (Some pg) t) =
     (s, [Loop_delivering item pg (snd (handleOutput cfg t s (Some (page_payload pg))))])"
| "resume e cfg s (Loop_visiting item) Threw = runQueue_after cfg s"
| "resume e cfg s (Loop_delivering item pg (Inl err)) Output_settled = runQueue_after cfg s"
| "resume e cfg s (Loop_delivering item pg (Inr ok)) Output_settled =
     (let s2 = enqueueLinks e cfg (page_document pg) (url item) (depth item) s
      in runQueue_after cfg
           (s2\<lparr>visited := Set_add (visited s2) (url item),
               pagesVisited := pagesVisited s2 + 1\<rparr>))"
| "resume e cfg s Loop_delaying Timer_fired = runQueue_loop cfg s"
| "resume e cfg s Loop_scheduled Timer_fired = runQueue cfg s"
| "resume e cfg s waiting other = (s, [waiting])"

text \<open>\<^verbatim>\<open>togglePause\<close>: the flag, and then the call of \<^verbatim>\<open>runQueue\<close> when the click resumes.\<close>

definition togglePause :: "state \<Rightarrow> state" where
  "togglePause s = (if \<not> isRunning s then s else s\<lparr>isPaused := \<not> isPaused s\<rparr>)"

definition togglePause_click :: "config \<Rightarrow> state \<Rightarrow> state \<times> task list" where
  "togglePause_click cfg s =
     (if \<not> isRunning s then (s, [])
      else if \<not> isPaused (togglePause s) then runQueue cfg (togglePause s)
      else (togglePause s, []))"

definition stopCrawl :: "state \<Rightarrow> state" where
  "stopCrawl s = s\<lparr>isStopping := True, queue := [], isRunning := False, isPaused := False\<rparr>"

text \<open>The two buttons of the allowlist; \<open>v\<close> is the trimmed text of the input.\<close>

definition addAllow :: "string \<Rightarrow> state \<Rightarrow> state" where
  "addAllow v s =
     (if v = [] then s
      else s\<lparr>allowlist := Set_add (allowlist s) v,
             dynamicAllowlist := Set_add (dynamicAllowlist s) v\<rparr>)"

definition removeAllow :: "string \<Rightarrow> state \<Rightarrow> state" where
  "removeAllow v s =
     s\<lparr>allowlist := Set_delete (allowlist s) v,
       dynamicAllowlist := Set_delete (dynamicAllowlist s) v\<rparr>"

text \<open>
  A session is the state and the suspended calls, oldest first. What happens to it,
  in order: the operator's clicks, and \<open>Resume i a\<close>, the \<open>i\<close>-th suspended call going
  on with the answer \<open>a\<close>. A click on \<^verbatim>\<open>Start Crawl\<close> runs \<^verbatim>\<open>startCrawl\<close> to its first
  \<^verbatim>\<open>await\<close>, in \<^verbatim>\<open>crawlCurrentPage\<close>.
\<close>

datatype event =
    Start int
  | TogglePause
  | Stop
  | AllowAdd string
  | AllowRemove string
  | Resume nat answer

fun step :: "env \<Rightarrow> config \<Rightarrow> state \<times> task list \<Rightarrow> event \<Rightarrow> state \<times> task list" where
  "step e cfg (s, tasks) (Start now) =
     (if isRunning s then (s, tasks)
      else case crawlCurrentPage_call e cfg (startCrawl_reset e cfg now s) of
        (s', new) \<Rightarrow> (s', tasks @ new))"
| "step e cfg (s, tasks) TogglePause =
     (case togglePause_click cfg s of (s', new) \<Rightarrow> (s', tasks @ new))"
| "step e cfg (s, tasks) Stop = (stopCrawl s, tasks)"
| "step e cfg (s, tasks) (AllowAdd v) = (addAllow v s, tasks)"
| "step e cfg (s, tasks) (AllowRemove v) = (removeAllow v s, tasks)"
| "step e cfg (s, tasks) (Resume i a) =
     (if i < length tasks then
        case resume e cfg s (tasks ! i) a of
          (s', next) \<Rightarrow> (s', take i tasks @ next @ drop (Suc i) tasks)
      else (s, tasks))"

definition session :: "env \<Rightarrow> config \<Rightarrow> event list \<Rightarrow> state \<times> task list" where
  "session e cfg evs = foldl (step e cfg) (initial_state e cfg, []) evs"

definition run :: "env \<Rightarrow> config \<Rightarrow> event list \<Rightarrow> state" where
  "run e cfg evs = fst (session e cfg evs)"

subsection \<open>The quiescence detector\<close>

record tracker =
  pendingRequests :: int
  lastActivity :: int
  lastMutation :: int

definition idleDelay :: int where
  "idleDelay = 1000"

definition createActivityTracker :: "int \<Rightarrow> int \<Rightarrow> tracker" where
  "createActivityTracker now1 now2 =
     \<lparr> pendingRequests = 0, lastActivity = now1, lastMutation = now2 \<rparr>"

definition markNetworkActivity :: "int \<Rightarrow> int \<Rightarrow> tracker \<Rightarrow> tracker" where
  "markNetworkActivity now delta tr =
     tr\<lparr>pendingRequests := max 0 (pendingRequests tr + delta), lastActivity := now\<rparr>"

definition networkIdle :: "int \<Rightarrow> tracker \<Rightarrow> bool" where
  "networkIdle now tr = (pendingRequests tr \<le> 0 \<and> now - lastActivity tr > idleDelay)"

definition domIdle :: "int \<Rightarrow> tracker \<Rightarrow> bool" where
  "domIdle now tr = (now - lastMutation tr > idleDelay div 2)"

datatype resolution = Settled | Timed_out

text \<open>
  \<^verbatim>\<open>check\<close> of \<^verbatim>\<open>waitForIdle\<close>. \<open>world k\<close> is what the \<open>k\<close>-th call of \<^verbatim>\<open>check\<close> reads:
  \<^verbatim>\<open>Date.now()\<close> and the tracker's variables at that moment. The result is the value
  of \<^verbatim>\<open>attempts\<close> when the promise resolves, and the branch that resolved it.
\<close>

function check :: "(nat \<Rightarrow> int \<times> tracker) \<Rightarrow> nat \<Rightarrow> nat \<times> resolution" where
  "check world attempts =
     (let attempts' = attempts + 1;
          now = fst (world attempts');
          tr = snd (world attempts')
      in if networkIdle now tr \<and> domIdle now tr then (attempts', Settled)
         else if attempts' > 120 then (attempts', Timed_out)
         else check world attempts')"
  by pat_completeness auto
termination
  by (relation "measure (\<lambda>(world, attempts). 121 - attempts)") auto

declare check.simps [simp del]

definition waitForIdle :: "(nat \<Rightarrow> int \<times> tracker) \<Rightarrow> nat \<times> resolution" where
  "waitForIdle world = check world 0"

text \<open>
  What happens to a tracker between two polls: the wrapped \<^verbatim>\<open>fetch\<close> and
  \<^verbatim>\<open>XMLHttpRequest\<close> call \<^verbatim>\<open>markNetworkActivity\<close> with a delta, and the mutation
  observer stores the time of the last mutation.
\<close>

datatype tracker_event = Network int int | Mutation int

fun track_event :: "tracker \<Rightarrow> tracker_event \<Rightarrow> tracker" where
  "track_event tr (Network now delta) = markNetworkActivity now delta tr"
| "track_event tr (Mutation now) = tr\<lparr>lastMutation := now\<rparr>"

definition track :: "tracker \<Rightarrow> tracker_event list \<Rightarrow> tracker" where
  "track tr evs = foldl track_event tr evs"

text \<open>Line 591: both conditions hold at the \<open>k\<close>-th poll.\<close>

definition idle_at :: "(nat \<Rightarrow> int \<times> tracker) \<Rightarrow> nat \<Rightarrow> bool" where
  "idle_at world k =
     (networkIdle (fst (world k)) (snd (world k)) \<and> domIdle (fst (world k)) (snd (world k)))"

subsection \<open>A small site, for concrete runs\<close>

text \<open>
  A page at \<^verbatim>\<open>https://a.test/\<close>, three more pages of that origin and one page of
  another origin. The parser knows these five addresses (each is written in full, so
  the base is not used) and throws on anything else; no address has a fragment. The
  regular expressions are the three the examples use: the empty pattern, which
  matches every string, \<^verbatim>\<open>test$\<close>, and the malformed \<^verbatim>\<open>(\<close>.
\<close>

definition site_url :: "string \<Rightarrow> string \<Rightarrow> string \<Rightarrow> string \<times> url_object" where
  "site_url h orig host = (h, \<lparr> href = h, origin = orig, hostname = host \<rparr>)"

definition site_urls :: "(string \<times> url_object) list" where
  "site_urls =
     [site_url ''https://a.test/'' ''https://a.test'' ''a.test'',
      site_url ''https://a.test/1'' ''https://a.test'' ''a.test'',
      site_url ''https://a.test/2'' ''https://a.test'' ''a.test'',
      site_url ''https://a.test/3'' ''https://a.test'' ''a.test'',
      site_url ''https://b.test/'' ''https://b.test'' ''b.test'']"

definition site_RegExp :: "string \<Rightarrow> (string \<Rightarrow> bool) option" where
  "site_RegExp src =
     (if src = [] then Some (\<lambda>h. True)
      else if src = ''test$'' then Some (\<lambda>h. endsWith h ''test'')
      else None)"

definition site :: env where
  "site = \<lparr> URL_new = (\<lambda>input base. map_of site_urls input),
            URL_clear_hash = (\<lambda>u. u),
            RegExp_new = site_RegExp,
            location_href = ''https://a.test/'',
            location_origin = ''https://a.test'',
            location_host = ''a.test'' \<rparr>"

definition site_config :: "nat \<Rightarrow> nat \<Rightarrow> config" where
  "site_config depth_limit page_limit =
     \<lparr> maxDepth = depth_limit, maxPages = page_limit, delayMs = 1500,
       domainAllowlist = [''a.test''], postEndpoint = [] \<rparr>"

definition site_page :: "string list \<Rightarrow> page" where
  "site_page links =
     \<lparr> page_payload = \<lparr> payload_url = [], timestamp = [], html = [], screenshot = [] \<rparr>,
       page_document = links \<rparr>"

text \<open>No endpoint answers, and every download succeeds.\<close>

definition downloads_only :: transport where
  "downloads_only = \<lparr> fetch_POST = NetworkError, GM_xmlhttpRequest = None,
                       gmDownload = (\<lambda>name. True) \<rparr>"

text \<open>
  The polls come every 250 ms, the first at time 0, when the tracker is made. On one
  page a request stays pending for ever; on the other nothing happens at all.
\<close>

definition busy_world :: "nat \<Rightarrow> int \<times> tracker" where
  "busy_world k =
     (250 * (int k - 1), \<lparr> pendingRequests = 1, lastActivity = 0, lastMutation = 0 \<rparr>)"

definition quiet_world :: "nat \<Rightarrow> int \<times> tracker" where
  "quiet_world k = (250 * (int k - 1), createActivityTracker 0 0)"

subsection \<open>What holds of every state of a session\<close>

text \<open>
  \<open>grown cfg d s s'\<close>: the state \<open>s'\<close> is \<open>s\<close> with entries appended to the queue, each
  of depth \<open>d + 1\<close> and with an address that \<open>s\<close> has neither visited nor queued, no
  address twice, and the queue and the counter together not above the larger of
  what they were and the page budget.
\<close>

definition grown :: "config \<Rightarrow> nat \<Rightarrow> state \<Rightarrow> state \<Rightarrow> bool" where
  "grown cfg d s s' =
     (\<exists>new. s' = s\<lparr>queue := queue s @ new\<rparr> \<and>
         (\<forall>it \<in> set new. depth it = d + 1 \<and> url it \<notin> set (visited s) \<and>
            (\<forall>item \<in> set (queue s). url item \<noteq> url it)) \<and>
         distinct (map url new) \<and>
         length (queue s @ new) + pagesVisited s
           \<le> max (length (queue s) + pagesVisited s) (maxPages cfg))"

text \<open>
  What every step keeps, whatever is suspended: the queue holds no address twice,
  no entry deeper than the depth limit, and no more entries than the page budget
  (one, the seed, with a budget of zero).
\<close>

definition session_inv :: "config \<Rightarrow> state \<Rightarrow> bool" where
  "session_inv cfg s =
     (distinct (map url (queue s)) \<and>
      (\<forall>it \<in> set (queue s). depth it \<le> maxDepth cfg) \<and>
      length (queue s) \<le> max 1 (maxPages cfg))"

text \<open>
  The session after \<^verbatim>\<open>Start Crawl\<close> on the starting page, whose document has the
  given links, with the given depth and page limits: the click, the capture, the
  delivery. And that session with a budget of three pages, gone on: the starting
  page links to pages 1 and 2; after the delay the loop passes over the seed and
  visits page 1, which links to itself, to pages 2 and 3 and to the other origin.
\<close>

definition started :: "nat \<Rightarrow> nat \<Rightarrow> string list \<Rightarrow> state" where
  "started depth_limit page_limit links =
     run site (site_config depth_limit page_limit)
       [Start 0,
        Resume 0 (Page_result (Some (site_page links)) downloads_only),
        Resume 0 Output_settled]"

definition crawled_two :: state where
  "crawled_two =
     run site (site_config 2 3)
       [Start 0,
        Resume 0 (Page_result (Some (site_page [''https://a.test/1'', ''https://a.test/2'']))
          downloads_only),
        Resume 0 Output_settled,
        Resume 0 Timer_fired,
        Resume 0 (Page_result (Some (site_page [''https://a.test/1'', ''https://a.test/2'',
          ''https://a.test/3'', ''https://b.test/''])) downloads_only),
        Resume 0 Output_settled]"

text \<open>
  Two sessions with clicks during an \<^verbatim>\<open>await\<close>. In the first the operator stops and
  starts again while the starting page is being captured, so two calls of
  \<^verbatim>\<open>crawlCurrentPage\<close> are suspended, and both go on. In the second, with a budget of
  three pages, the loop is visiting page 1 with the queue empty when the operator
  pauses and resumes (the second \<^verbatim>\<open>runQueue\<close> finds the queue empty and clears
  \<^verbatim>\<open>isRunning\<close>) and starts again; then the visit of page 1 goes on, and then the
  capture of the starting page.
\<close>

definition started_twice :: state where
  "started_twice =
     run site (site_config 2 50)
       [Start 0, Stop, Start 1,
        Resume 0 (Page_result (Some (site_page [])) downloads_only),
        Resume 0 Output_settled,
        Resume 1 (Page_result (Some (site_page [])) downloads_only),
        Resume 1 Output_settled]"

definition restarted_in_flight :: state where
  "restarted_in_flight =
     run site (site_config 2 3)
       [Start 0,
        Resume 0 (Page_result (Some (site_page [''https://a.test/1''])) downloads_only),
        Resume 0 Output_settled,
        Resume 0 Timer_fired,
        TogglePause, TogglePause,
        Start 1,
        Resume 0 (Page_result (Some (site_page [''https://a.test/2'', ''https://a.test/3'']))
          downloads_only),
        Resume 0 Output_settled,
        Resume 1 (Page_result (Some (site_page [])) downloads_only),
        Resume 1 Output_settled]"

text \<open>
  The state the script starts with, with a given allowlist. An endpoint is
  configured in \<open>sink_config\<close>, and \<open>refusing disk\<close> is the outside where the endpoint
  answers 500 to the direct and to the privileged POST, and \<open>disk\<close> says which files
  can be saved.
\<close>

definition with_allowlist :: "string list \<Rightarrow> state" where
  "with_allowlist items = (initial_state site (site_config 2 50))\<lparr>allowlist := items\<rparr>"

definition sink_config :: config where
  "sink_config = (site_config 2 50)\<lparr>postEndpoint := ''https://sink.test/''\<rparr>"

definition refusing :: "(string \<Rightarrow> bool) \<Rightarrow> transport" where
  "refusing disk = \<lparr> fetch_POST = Response 500, GM_xmlhttpRequest = Some (Response 500),
                      gmDownload = disk \<rparr>"

section \<open>Properties\<close>

subsection \<open>The frontier in every state of a session\<close>

lemma enqueue_anchor_cases:
  "enqueue_anchor e cfg b d s h = s \<or>
   (\<exists>u. enqueue_anchor e cfg b d s h = s\<lparr>queue := queue s @ [\<lparr>url = u, depth = d + 1\<rparr>]\<rparr> \<and>
        isAllowedUrl e s u \<and> u \<notin> set (visited s) \<and> (\<forall>item \<in> set (queue s). url item \<noteq> u) \<and>
        length (queue s) + pagesVisited s < maxPages cfg)"
proof (cases "h = [] \<or> startsWith h ''javascript:'' \<or> startsWith h ''mailto:''")
  case True
  then show ?thesis by (simp add: enqueue_anchor_def)
next
  case usable: False
  show ?thesis
  proof (cases "URL_new e h b")
    case None
    with usable show ?thesis by (simp add: enqueue_anchor_def)
  next
    case (Some parsed)
    let ?u = "normalizeUrl e (href parsed)"
    show ?thesis
    proof (cases "isAllowedUrl e s ?u \<and> ?u \<notin> set (visited s) \<and> (\<forall>item \<in> set (queue s). url item \<noteq> ?u) \<and>
        length (queue s) + pagesVisited s < maxPages cfg")
      case True
      with usable Some
      have "enqueue_anchor e cfg b d s h = s\<lparr>queue := queue s @ [\<lparr>url = ?u, depth = d + 1\<rparr>]\<rparr>"
        by (auto simp: enqueue_anchor_def Let_def Set_has_def list_ex_iff)
      with True show ?thesis by blast
    next
      case False
      with usable Some have "enqueue_anchor e cfg b d s h = s"
        by (auto simp: enqueue_anchor_def Let_def Set_has_def list_ex_iff)
      then show ?thesis by simp
    qed
  qed
qed

lemma foldl_enqueue_anchor_inv:
  assumes "P s" and "\<And>s h. P s \<Longrightarrow> P (enqueue_anchor e cfg b d s h)"
  shows "P (foldl (enqueue_anchor e cfg b d) s doc)"
  using assms(1) by (induction doc arbitrary: s) (simp_all add: assms(2))

lemma grown_refl: "grown cfg d s s"
  unfolding grown_def by (rule exI [of _ "[]"]) simp

lemma grown_enqueue_anchor:
  assumes "grown cfg d s s'"
  shows "grown cfg d s (enqueue_anchor e cfg b d s' h)"
proof -
  from assms obtain new where eq: "s' = s\<lparr>queue := queue s @ new\<rparr>"
    and new: "\<forall>it \<in> set new. depth it = d + 1 \<and> url it \<notin> set (visited s) \<and> (\<forall>item \<in> set (queue s). url item \<noteq> url it)"
    and dist: "distinct (map url new)"
    and len: "length (queue s @ new) + pagesVisited s \<le> max (length (queue s) + pagesVisited s) (maxPages cfg)"
    unfolding grown_def by blast
  from enqueue_anchor_cases [of e cfg b d s' h] show ?thesis
  proof
    assume "enqueue_anchor e cfg b d s' h = s'"
    with assms show ?thesis by simp
  next
    assume "\<exists>u. enqueue_anchor e cfg b d s' h = s'\<lparr>queue := queue s' @ [\<lparr>url = u, depth = d + 1\<rparr>]\<rparr> \<and>
        isAllowedUrl e s' u \<and> u \<notin> set (visited s') \<and> (\<forall>item \<in> set (queue s'). url item \<noteq> u) \<and>
        length (queue s') + pagesVisited s' < maxPages cfg"
    then obtain u where r: "enqueue_anchor e cfg b d s' h = s'\<lparr>queue := queue s' @ [\<lparr>url = u, depth = d + 1\<rparr>]\<rparr>"
      and u1: "u \<notin> set (visited s')" and u2: "\<forall>item \<in> set (queue s'). url item \<noteq> u"
      and u3: "length (queue s') + pagesVisited s' < maxPages cfg" by blast
    let ?new = "new @ [\<lparr>url = u, depth = d + 1\<rparr>]"
    have a: "enqueue_anchor e cfg b d s' h = s\<lparr>queue := queue s @ ?new\<rparr>"
      unfolding r by (simp add: eq)
    have b: "\<forall>it \<in> set ?new. depth it = d + 1 \<and> url it \<notin> set (visited s) \<and> (\<forall>item \<in> set (queue s). url item \<noteq> url it)"
      using new u1 u2 by (auto simp: eq)
    have c: "distinct (map url ?new)" using dist u2 by (auto simp: eq)
    have d: "length (queue s @ ?new) + pagesVisited s
              \<le> max (length (queue s) + pagesVisited s) (maxPages cfg)"
      using u3 by (simp add: eq)
    show ?thesis unfolding grown_def using a b c d by blast
  qed
qed

lemma grown_enqueueLinks: "grown cfg d s (enqueueLinks e cfg doc b d s)"
  unfolding enqueueLinks_def
  by (auto intro: grown_refl foldl_enqueue_anchor_inv [where P = "grown cfg d s"] grown_enqueue_anchor)

lemma enqueueLinks_too_deep: "d + 1 > maxDepth cfg \<Longrightarrow> enqueueLinks e cfg doc b d s = s"
  by (simp add: enqueueLinks_def)

lemma grown_fields:
  assumes "grown cfg d s s'"
  shows "visited s' = visited s" "pagesVisited s' = pagesVisited s"
    "isRunning s' = isRunning s" "isPaused s' = isPaused s" "isStopping s' = isStopping s"
    "allowlist s' = allowlist s" "dynamicAllowlist s' = dynamicAllowlist s" "startTime s' = startTime s"
  using assms unfolding grown_def by auto

lemma grown_distinct:
  assumes "grown cfg d s s'" "distinct (map url (queue s))"
  shows "distinct (map url (queue s'))"
  using assms unfolding grown_def by auto

lemma grown_length:
  assumes "grown cfg d s s'"
  shows "length (queue s') + pagesVisited s \<le> max (length (queue s) + pagesVisited s) (maxPages cfg)"
  using assms unfolding grown_def by auto

lemma grown_depth:
  assumes "grown cfg d s s'" "it \<in> set (queue s')"
  shows "it \<in> set (queue s) \<or> depth it = d + 1"
  using assms unfolding grown_def by auto

lemma enqueueLinks_depth:
  assumes "\<forall>it \<in> set (queue s). depth it \<le> maxDepth cfg"
  shows "\<forall>it \<in> set (queue (enqueueLinks e cfg doc b d s)). depth it \<le> maxDepth cfg"
proof (cases "d + 1 > maxDepth cfg")
  case True
  with assms show ?thesis by (simp add: enqueueLinks_def)
next
  case False
  show ?thesis
  proof
    fix it assume "it \<in> set (queue (enqueueLinks e cfg doc b d s))"
    from grown_depth [OF grown_enqueueLinks this] assms False
    show "depth it \<le> maxDepth cfg" by auto
  qed
qed

lemma session_inv_initial: "session_inv cfg (initial_state e cfg)"
  by (simp add: session_inv_def initial_state_def)

lemma session_inv_reset: "session_inv cfg (startCrawl_reset e cfg now s)"
  by (simp add: session_inv_def startCrawl_reset_def Let_def)

lemma session_inv_enqueueLinks:
  assumes "session_inv cfg s"
  shows "session_inv cfg (enqueueLinks e cfg doc b d s)"
proof -
  have g: "grown cfg d s (enqueueLinks e cfg doc b d s)" by (rule grown_enqueueLinks)
  have d1: "distinct (map url (queue (enqueueLinks e cfg doc b d s)))"
    using grown_distinct [OF g] assms by (simp add: session_inv_def)
  have d2: "\<forall>it \<in> set (queue (enqueueLinks e cfg doc b d s)). depth it \<le> maxDepth cfg"
    using enqueueLinks_depth [of s cfg e doc b d] assms by (simp add: session_inv_def)
  have "length (queue (enqueueLinks e cfg doc b d s)) + pagesVisited s
          \<le> max (length (queue s) + pagesVisited s) (maxPages cfg)"
    by (rule grown_length [OF g])
  moreover have "length (queue s) \<le> max 1 (maxPages cfg)"
    using assms by (simp add: session_inv_def)
  ultimately have d3: "length (queue (enqueueLinks e cfg doc b d s)) \<le> max 1 (maxPages cfg)"
    by arith
  from d1 d2 d3 show ?thesis by (simp add: session_inv_def)
qed

lemma session_inv_visited:
  "session_inv cfg (s\<lparr>visited := v, pagesVisited := n\<rparr>) = session_inv cfg s"
  by (simp add: session_inv_def)

lemma session_inv_leave:
  "session_inv cfg s \<Longrightarrow> session_inv cfg (fst (runQueue_leave cfg s))"
  by (simp add: runQueue_leave_def runQueue_exit_def Let_def session_inv_def)

lemma session_inv_loop:
  "session_inv cfg s \<Longrightarrow> session_inv cfg (fst (runQueue_loop cfg s))"
proof (induction cfg s rule: runQueue_loop.induct)
  case (1 cfg s)
  show ?case
  proof (cases "queue s")
    case Nil
    with "1.prems" show ?thesis
      by (subst runQueue_loop.simps) (simp add: session_inv_leave)
  next
    case (Cons item rest)
    from "1.prems" Cons have shifted: "session_inv cfg (s\<lparr>queue := rest\<rparr>)"
      by (auto simp: session_inv_def)
    with "1.IH" "1.prems" Cons show ?thesis
      by (subst runQueue_loop.simps) (simp add: session_inv_leave Let_def)
  qed
qed

lemma session_inv_runQueue:
  "session_inv cfg s \<Longrightarrow> session_inv cfg (fst (runQueue cfg s))"
  by (simp add: runQueue_def session_inv_loop)

lemma session_inv_after:
  "session_inv cfg s \<Longrightarrow> session_inv cfg (fst (runQueue_after cfg s))"
  by (simp add: runQueue_after_def session_inv_leave)

lemma session_inv_tail:
  "session_inv cfg s \<Longrightarrow> session_inv cfg (fst (startCrawl_tail cfg s))"
  by (simp add: startCrawl_tail_def session_inv_runQueue)

lemma session_inv_call:
  "session_inv cfg s \<Longrightarrow> session_inv cfg (fst (crawlCurrentPage_call e cfg s))"
  by (simp add: crawlCurrentPage_call_def session_inv_tail)

lemma session_inv_resume:
  assumes "session_inv cfg s"
  shows "session_inv cfg (fst (resume e cfg s waiting a))"
proof -
  have visit: "session_inv cfg (fst (runQueue_after cfg
      ((enqueueLinks e cfg doc b d s)\<lparr>visited := v, pagesVisited := n\<rparr>)))" for doc b d v n
    using assms by (intro session_inv_after) (simp add: session_inv_visited session_inv_enqueueLinks)
  have current: "session_inv cfg (enqueueLinks e cfg doc b d (s\<lparr>visited := v, pagesVisited := n\<rparr>))"
    for doc b d v n
    using assms by (intro session_inv_enqueueLinks) (simp add: session_inv_visited)
  show ?thesis
    using assms visit current
    by (cases "(e, cfg, s, waiting, a)" rule: resume.cases)
      (simp_all add: session_inv_tail session_inv_loop session_inv_after session_inv_runQueue Let_def)
qed

lemma session_inv_togglePause:
  "session_inv cfg s \<Longrightarrow> session_inv cfg (fst (togglePause_click cfg s))"
proof -
  assume inv: "session_inv cfg s"
  then have "session_inv cfg (togglePause s)"
    by (simp add: togglePause_def session_inv_def)
  with inv show ?thesis
    by (simp add: togglePause_click_def session_inv_runQueue)
qed

lemma session_inv_step:
  assumes "session_inv cfg (fst c)"
  shows "session_inv cfg (fst (step e cfg c ev))"
proof (cases c)
  case (Pair s tasks)
  with assms have inv: "session_inv cfg s" by simp
  show ?thesis
  proof (cases ev)
    case (Start now)
    have "session_inv cfg (fst (crawlCurrentPage_call e cfg (startCrawl_reset e cfg now s)))"
      by (intro session_inv_call session_inv_reset)
    with Start Pair inv show ?thesis
      by (cases "crawlCurrentPage_call e cfg (startCrawl_reset e cfg now s)") auto
  next
    case TogglePause
    with Pair session_inv_togglePause [OF inv] show ?thesis
      by (cases "togglePause_click cfg s") auto
  next
    case Stop
    with Pair inv show ?thesis by (simp add: stopCrawl_def session_inv_def)
  next
    case (AllowAdd v)
    with Pair inv show ?thesis by (simp add: addAllow_def session_inv_def)
  next
    case (AllowRemove v)
    with Pair inv show ?thesis by (simp add: removeAllow_def session_inv_def)
  next
    case (Resume i a)
    with Pair session_inv_resume [OF inv, of e "tasks ! i" a] inv show ?thesis
      by (cases "resume e cfg s (tasks ! i) a") auto
  qed
qed

lemma session_inv_foldl:
  "session_inv cfg (fst c) \<Longrightarrow> session_inv cfg (fst (foldl (step e cfg) c evs))"
  by (induction evs arbitrary: c) (simp_all add: session_inv_step)

lemma session_inv_run: "session_inv cfg (run e cfg evs)"
  unfolding run_def session_def by (rule session_inv_foldl) (simp add: session_inv_initial)

subsection \<open>The pending-request counter\<close>

lemma track_event_pending:
  "0 \<le> pendingRequests tr \<Longrightarrow> 0 \<le> pendingRequests (track_event tr ev)"
  by (cases ev) (simp_all add: markNetworkActivity_def)

lemma foldl_track_pending:
  "0 \<le> pendingRequests tr \<Longrightarrow> 0 \<le> pendingRequests (foldl track_event tr evs)"
  by (induction evs arbitrary: tr) (simp_all add: track_event_pending)

text \<open>
  C10. Whatever network events reach a tracker, in whatever order and with whatever
  deltas, its counter of pending requests is never negative, since
  \<^verbatim>\<open>markNetworkActivity\<close> clamps it at zero; so the test \<^verbatim>\<open>pendingRequests <= 0\<close> of
  the network-idle condition says that the counter is zero.
\<close>

theorem pendingRequests_never_negative:
  "0 \<le> pendingRequests (track (createActivityTracker n1 n2) evs) \<and>
   0 \<le> pendingRequests (markNetworkActivity now delta (track (createActivityTracker n1 n2) evs)) \<and>
   networkIdle now (track (createActivityTracker n1 n2) evs) =
     (pendingRequests (track (createActivityTracker n1 n2) evs) = 0 \<and>
      now - lastActivity (track (createActivityTracker n1 n2) evs) > idleDelay)"
proof -
  have "0 \<le> pendingRequests (track (createActivityTracker n1 n2) evs)"
    unfolding track_def by (rule foldl_track_pending) (simp add: createActivityTracker_def)
  then show ?thesis
    by (auto simp: networkIdle_def markNetworkActivity_def)
qed

theorem pendingRequests_never_negative_witness:
  "pendingRequests (track (createActivityTracker 0 0)
      [Network 1 1, Network 2 (- 1), Network 3 (- 1), Network 4 (- 1)]) = 0"
  using pendingRequests_never_negative [of 0 0
      "[Network 1 1, Network 2 (- 1), Network 3 (- 1), Network 4 (- 1)]" 5 0]
  by (simp add: track_def markNetworkActivity_def createActivityTracker_def)

subsection \<open>Starting twice\<close>

text \<open>
  C7. \<^verbatim>\<open>startCrawl\<close> called while the session is running returns the state it was
  given: the flags, the visited set, the queue, the counter of visited pages and the
  start time are all as before. The function has no branch that throws. In a
  session the click leaves the state and every suspended call as they are.
\<close>

theorem startCrawl_while_running:
  "isRunning s \<Longrightarrow>
     startCrawl e cfg now capture t s = s \<and> step e cfg (s, tasks) (Start now) = (s, tasks)"
  by (simp add: startCrawl_def)

theorem startCrawl_while_running_witness:
  "isRunning (startCrawl_reset site (site_config 2 50) 7 (initial_state site (site_config 2 50))) \<and>
   startCrawl site (site_config 2 50) 99 (Some (site_page [''https://a.test/1''])) downloads_only
     (startCrawl_reset site (site_config 2 50) 7 (initial_state site (site_config 2 50)))
   = startCrawl_reset site (site_config 2 50) 7 (initial_state site (site_config 2 50)) \<and>
   step site (site_config 2 50)
     (startCrawl_reset site (site_config 2 50) 7 (initial_state site (site_config 2 50)),
      [Current_capturing]) (Start 99)
   = (startCrawl_reset site (site_config 2 50) 7 (initial_state site (site_config 2 50)),
      [Current_capturing])"
proof -
  have r: "isRunning (startCrawl_reset site (site_config 2 50) 7 (initial_state site (site_config 2 50)))"
    by (simp add: startCrawl_reset_def Let_def)
  from startCrawl_while_running [OF r] r show ?thesis by simp
qed

subsection \<open>Waiting for a page to settle\<close>

lemma check_first_idle:
  "a < k \<Longrightarrow> k \<le> 121 \<Longrightarrow> idle_at world k \<Longrightarrow>
   (\<And>j. a < j \<Longrightarrow> j < k \<Longrightarrow> \<not> idle_at world j) \<Longrightarrow> check world a = (k, Settled)"
proof (induction "k - a" arbitrary: a)
  case 0
  then show ?case by simp
next
  case (Suc d)
  show ?case
  proof (cases "Suc a = k")
    case True
    with Suc.prems show ?thesis
      by (subst check.simps) (simp add: idle_at_def Let_def)
  next
    case False
    with Suc.prems have lt: "Suc a < k" by simp
    have busy: "\<not> idle_at world (Suc a)"
      using Suc.prems(4) [of "Suc a"] lt by simp
    have "check world (Suc a) = (k, Settled)"
      using Suc.hyps Suc.prems lt by (intro Suc.hyps(1)) auto
    with busy lt Suc.prems(2) show ?thesis
      by (subst check.simps) (simp add: idle_at_def Let_def)
  qed
qed

lemma check_never_idle:
  "a \<le> 120 \<Longrightarrow> (\<And>j. a < j \<Longrightarrow> j \<le> 121 \<Longrightarrow> \<not> idle_at world j) \<Longrightarrow>
   check world a = (121, Timed_out)"
proof (induction "120 - a" arbitrary: a)
  case 0
  then have "a = 120" by simp
  with "0.prems"(2) [of 121] show ?case
    by (subst check.simps) (simp add: idle_at_def Let_def)
next
  case (Suc d)
  then have lt: "a < 120" by simp
  have busy: "\<not> idle_at world (Suc a)"
    using Suc.prems(2) [of "Suc a"] lt by simp
  have "check world (Suc a) = (121, Timed_out)"
    using Suc.hyps Suc.prems lt by (intro Suc.hyps(1)) auto
  with busy lt show ?case
    by (subst check.simps) (simp add: idle_at_def Let_def)
qed

lemma check_bound: "a \<le> 120 \<Longrightarrow> fst (check world a) \<le> 121"
proof (induction "120 - a" arbitrary: a)
  case 0
  then have "a = 120" by simp
  then show ?case by (subst check.simps) (simp add: Let_def)
next
  case (Suc d)
  then have lt: "a < 120" by simp
  have "fst (check world (Suc a)) \<le> 121"
    using Suc lt by (intro Suc.hyps(1)) auto
  with lt show ?case by (subst check.simps) (simp add: Let_def)
qed

lemma busy_world_never_idle: "\<not> idle_at busy_world j"
  by (simp add: idle_at_def busy_world_def networkIdle_def)

lemma quiet_world_idle: "idle_at quiet_world j = (6 \<le> j)"
  by (auto simp: idle_at_def quiet_world_def networkIdle_def domIdle_def idleDelay_def
      createActivityTracker_def)

text \<open>
  C8, amended. \<^verbatim>\<open>waitForIdle\<close> always resolves, and after at most 121 polls. It
  resolves at the first poll at which the network-idle and the structural-idle
  condition both hold, when that poll is among the first 121. Where the two never
  hold together it resolves at the 121st poll, the one that finds \<^verbatim>\<open>attempts > 120\<close>:
  120 polling intervals after the first poll, and not at the 120th.
\<close>

theorem waitForIdle_resolves:
  "fst (waitForIdle world) \<le> 121 \<and>
   (1 \<le> k \<and> k \<le> 121 \<and> idle_at world k \<and> (\<forall>j. 1 \<le> j \<and> j < k \<longrightarrow> \<not> idle_at world j)
      \<longrightarrow> waitForIdle world = (k, Settled)) \<and>
   ((\<forall>j. 1 \<le> j \<and> j \<le> 121 \<longrightarrow> \<not> idle_at world j)
      \<longrightarrow> waitForIdle world = (121, Timed_out))"
proof (intro conjI impI)
  show "fst (waitForIdle world) \<le> 121"
    unfolding waitForIdle_def by (rule check_bound) simp
next
  assume h: "1 \<le> k \<and> k \<le> 121 \<and> idle_at world k \<and> (\<forall>j. 1 \<le> j \<and> j < k \<longrightarrow> \<not> idle_at world j)"
  show "waitForIdle world = (k, Settled)"
    unfolding waitForIdle_def using h by (intro check_first_idle) auto
next
  assume h: "\<forall>j. 1 \<le> j \<and> j \<le> 121 \<longrightarrow> \<not> idle_at world j"
  show "waitForIdle world = (121, Timed_out)"
    unfolding waitForIdle_def using h by (intro check_never_idle) auto
qed

theorem waitForIdle_resolves_witness:
  "waitForIdle quiet_world = (6, Settled) \<and> waitForIdle busy_world = (121, Timed_out)"
  using waitForIdle_resolves [of quiet_world 6] waitForIdle_resolves [of busy_world 1]
  by (simp add: quiet_world_idle busy_world_never_idle)

text \<open>
  The claim as it was stated, that a page which never settles is released by the
  120th attempt, fails: the page with a request pending for ever is released at the
  121st.
\<close>

theorem waitForIdle_busy_counterexample:
  "\<not> fst (waitForIdle busy_world) \<le> 120"
proof -
  have "waitForIdle busy_world = (121, Timed_out)"
    unfolding waitForIdle_def by (rule check_never_idle) (simp_all add: busy_world_never_idle)
  then show ?thesis by simp
qed

subsection \<open>No page twice\<close>

lemma runQueue_body_visited_head:
  "Set_has (visited s) (url item) \<Longrightarrow>
   runQueue_body e cfg pageData t (s\<lparr>queue := item # rest\<rparr>) = s\<lparr>queue := rest\<rparr>"
  by (simp add: runQueue_body_def Let_def)

lemma runQueue_body_deep_head:
  "maxDepth cfg < depth item \<Longrightarrow>
   runQueue_body e cfg pageData t (s\<lparr>queue := item # rest\<rparr>) = s\<lparr>queue := rest\<rparr>"
  by (simp add: runQueue_body_def Let_def)

lemma runQueue_loop_visited_head:
  "Set_has (visited s) (url item) \<Longrightarrow> pagesVisited s < maxPages cfg \<Longrightarrow>
   \<not> isPaused s \<Longrightarrow> \<not> isStopping s \<Longrightarrow>
   runQueue_loop cfg (s\<lparr>queue := item # rest\<rparr>) = runQueue_loop cfg (s\<lparr>queue := rest\<rparr>)"
  by (subst runQueue_loop.simps) (simp add: Let_def)

lemma enqueueLinks_new_entries:
  assumes "it \<in> set (queue (enqueueLinks e cfg doc b d s))"
  shows "it \<in> set (queue s) \<or>
         (url it \<notin> set (visited s) \<and> (\<forall>item \<in> set (queue s). url item \<noteq> url it))"
  using grown_enqueueLinks [of cfg d s e doc b] assms unfolding grown_def by auto

text \<open>
  What one call does when nothing else runs during its \<^verbatim>\<open>await\<close>s is what the
  functions \<open>startCrawl\<close> and \<open>runQueue_body\<close> above say: the click, the capture and
  the delivery of the starting page; and the loop going on after a delay, visiting
  the head of the queue and leaving the visit.
\<close>

lemma startCrawl_uninterrupted:
  assumes "\<not> isRunning s"
    and "snd (handleOutput cfg t (startCrawl_reset e cfg now s) (Some (page_payload pg))) = Inr ()"
  shows "fst (foldl (step e cfg) (s, [])
           [Start now, Resume 0 (Page_result (Some pg) t), Resume 0 Output_settled])
         = startCrawl e cfg now (Some pg) t s"
proof -
  have fresh: "visited (startCrawl_reset e cfg now s) = []"
    by (simp add: startCrawl_reset_def Let_def)
  show ?thesis
    using assms
    by (simp add: crawlCurrentPage_call_def startCrawl_def crawlCurrentPage_def fresh
        Set_has_def Let_def)
qed

lemma runQueue_body_uninterrupted:
  assumes "\<not> Set_has (visited s) (url item)" "depth item \<le> maxDepth cfg"
    and "pagesVisited s < maxPages cfg" "\<not> isPaused s" "\<not> isStopping s"
    and "snd (handleOutput cfg t (s\<lparr>queue := rest\<rparr>) (Some (page_payload pg))) = Inr ()"
  shows "fst (foldl (step e cfg) (s\<lparr>queue := item # rest\<rparr>, [Loop_delaying])
           [Resume 0 Timer_fired, Resume 0 (Page_result (Some pg) t), Resume 0 Output_settled])
         = fst (runQueue_after cfg (runQueue_body e cfg (Some pg) t (s\<lparr>queue := item # rest\<rparr>)))"
proof -
  have taken: "runQueue_loop cfg (s\<lparr>queue := item # rest\<rparr>) = (s\<lparr>queue := rest\<rparr>, [Loop_visiting item])"
    using assms by (subst runQueue_loop.simps) (simp add: Let_def)
  show ?thesis
    using assms by (simp add: taken runQueue_body_def Let_def)
qed

text \<open>
  C1, amended. In every state of a session, whatever runs during the \<^verbatim>\<open>await\<close>s, the
  queue holds no address twice. \<^verbatim>\<open>enqueueLinks\<close> appends an address only when, at
  that moment, it is neither in the visited set nor in the queue. And the loop of
  \<^verbatim>\<open>runQueue\<close> passes over an entry whose address is in the visited set when it is
  taken from the queue: it goes on as if the entry had not been there, and an
  uninterrupted turn of the loop only removes it.
\<close>

theorem frontier_without_duplicates:
  "distinct (map url (queue (run e cfg evs))) \<and>
   (\<forall>it \<in> set (queue (enqueueLinks e cfg doc b d s)).
      it \<in> set (queue s) \<or>
      (url it \<notin> set (visited s) \<and> (\<forall>item \<in> set (queue s). url item \<noteq> url it))) \<and>
   (Set_has (visited s) (url item) \<and> pagesVisited s < maxPages cfg \<and>
    \<not> isPaused s \<and> \<not> isStopping s \<longrightarrow>
      runQueue_loop cfg (s\<lparr>queue := item # rest\<rparr>) = runQueue_loop cfg (s\<lparr>queue := rest\<rparr>)) \<and>
   (Set_has (visited s) (url item) \<longrightarrow>
      runQueue_body e cfg pageData t (s\<lparr>queue := item # rest\<rparr>) = s\<lparr>queue := rest\<rparr>)"
  using session_inv_run [of cfg e evs] enqueueLinks_new_entries [of _ e cfg doc b d s]
    runQueue_body_visited_head [of s item e cfg pageData t rest]
    runQueue_loop_visited_head [of s item cfg rest]
  unfolding session_inv_def by blast

theorem frontier_without_duplicates_witness:
  "Set_has (visited (started 2 50 [''https://a.test/1''])) ''https://a.test/'' \<and>
   runQueue_loop (site_config 2 50)
     ((started 2 50 [''https://a.test/1''])
        \<lparr>queue := [\<lparr>url = ''https://a.test/'', depth = 0\<rparr>, \<lparr>url = ''https://a.test/1'', depth = 1\<rparr>]\<rparr>)
     = ((started 2 50 [''https://a.test/1''])\<lparr>queue := []\<rparr>,
        [Loop_visiting \<lparr>url = ''https://a.test/1'', depth = 1\<rparr>]) \<and>
   runQueue_body site (site_config 2 50) None downloads_only
     ((started 2 50 [''https://a.test/1''])
        \<lparr>queue := [\<lparr>url = ''https://a.test/'', depth = 0\<rparr>, \<lparr>url = ''https://a.test/1'', depth = 1\<rparr>]\<rparr>)
     = (started 2 50 [''https://a.test/1''])\<lparr>queue := [\<lparr>url = ''https://a.test/1'', depth = 1\<rparr>]\<rparr> \<and>
   \<lparr>url = ''https://a.test/2'', depth = 1\<rparr>
     \<in> set (queue (enqueueLinks site (site_config 2 50) [''https://a.test/'', ''https://a.test/2'']
           ''https://a.test/'' 0 (started 2 50 [''https://a.test/1'']))) \<and>
   ''https://a.test/2'' \<notin> set (visited (started 2 50 [''https://a.test/1''])) \<and>
   distinct (map url (queue (started 2 50 [''https://a.test/1''])))"
proof -
  let ?s = "started 2 50 [''https://a.test/1'']"
  let ?seed = "\<lparr>url = ''https://a.test/'', depth = 0\<rparr>"
  let ?one = "\<lparr>url = ''https://a.test/1'', depth = 1\<rparr>"
  let ?new = "\<lparr>url = ''https://a.test/2'', depth = 1\<rparr>"
  note all = frontier_without_duplicates [of site "site_config 2 50"
      "[Start 0, Resume 0 (Page_result (Some (site_page [''https://a.test/1''])) downloads_only),
        Resume 0 Output_settled]"
      "[''https://a.test/'', ''https://a.test/2'']" "''https://a.test/''" 0 ?s
      ?seed "[?one]" None downloads_only]
  have seen: "Set_has (visited ?s) ''https://a.test/''"
    unfolding started_def by code_simp
  have going: "pagesVisited ?s < maxPages (site_config 2 50) \<and> \<not> isPaused ?s \<and> \<not> isStopping ?s"
    unfolding started_def by code_simp
  have next_one: "runQueue_loop (site_config 2 50) (?s\<lparr>queue := [?one]\<rparr>)
      = (?s\<lparr>queue := []\<rparr>, [Loop_visiting ?one])"
    unfolding started_def by code_simp
  have added: "?new \<in> set (queue (enqueueLinks site (site_config 2 50)
      [''https://a.test/'', ''https://a.test/2''] ''https://a.test/'' 0 ?s))"
    unfolding started_def by code_simp
  have fresh: "?new \<notin> set (queue ?s)"
    unfolding started_def by code_simp
  from all seen going have "runQueue_loop (site_config 2 50) (?s\<lparr>queue := [?seed, ?one]\<rparr>)
      = runQueue_loop (site_config 2 50) (?s\<lparr>queue := [?one]\<rparr>)"
    by simp
  with next_one have passed: "runQueue_loop (site_config 2 50) (?s\<lparr>queue := [?seed, ?one]\<rparr>)
      = (?s\<lparr>queue := []\<rparr>, [Loop_visiting ?one])"
    by simp
  from all seen have skipped: "runQueue_body site (site_config 2 50) None downloads_only
      (?s\<lparr>queue := [?seed, ?one]\<rparr>) = ?s\<lparr>queue := [?one]\<rparr>"
    by simp
  from all added fresh have unseen: "''https://a.test/2'' \<notin> set (visited ?s)"
    by fastforce
  from all have "distinct (map url (queue ?s))"
    unfolding started_def by blast
  with seen passed skipped added unseen show ?thesis by blast
qed

text \<open>
  The claim as it was stated fails: an address can be in the queue and in the visited
  set at once. \<^verbatim>\<open>startCrawl\<close> queues the starting page and \<^verbatim>\<open>crawlCurrentPage\<close> then
  marks it visited, so after the first capture the seed is in both.
\<close>

theorem seed_queued_and_visited_counterexample:
  "Set_has (visited (started 2 50 [])) ''https://a.test/'' \<and>
   list_ex (\<lambda>item. url item = ''https://a.test/'') (queue (started 2 50 []))"
  unfolding started_def by code_simp

text \<open>
  The loop of \<^verbatim>\<open>runQueue\<close> collects the links of a page before it marks the page
  visited, so a page that links to itself is queued once more: page 1 here. And a
  page can be captured more than once: where the operator stops and starts again
  during the first capture, the starting page is captured by both calls of
  \<^verbatim>\<open>crawlCurrentPage\<close> and counted twice.
\<close>

lemma self_link_queued_again:
  "visited crawled_two = [''https://a.test/'', ''https://a.test/1''] \<and>
   map url (queue crawled_two) = [''https://a.test/1'', ''https://a.test/2'']"
  unfolding crawled_two_def by code_simp

lemma start_page_counted_twice:
  "pagesVisited started_twice = 2 \<and> visited started_twice = [''https://a.test/'']"
  unfolding started_twice_def by code_simp

subsection \<open>The page budget\<close>

lemma enqueueLinks_budget:
  "length (queue (enqueueLinks e cfg doc b d s)) + pagesVisited s
     \<le> max (length (queue s) + pagesVisited s) (maxPages cfg) \<and>
   pagesVisited (enqueueLinks e cfg doc b d s) = pagesVisited s \<and>
   visited (enqueueLinks e cfg doc b d s) = visited s"
  using grown_length [OF grown_enqueueLinks [of cfg d s e doc b]]
    grown_fields(1,2) [OF grown_enqueueLinks [of cfg d s e doc b]] by simp

text \<open>
  C2, amended. In every state of a session, whatever runs during the \<^verbatim>\<open>await\<close>s, the
  queue has at most as many entries as the page budget (one, the seed, with a budget
  of zero). \<^verbatim>\<open>enqueueLinks\<close> never raises the length of the queue plus the counter of
  visited pages above the budget: where the sum is below the budget it stays at or
  below it, and where it is not, nothing is appended. It leaves the counter and the
  visited set as they are.
\<close>

theorem frontier_budget:
  "length (queue (run e cfg evs)) \<le> max 1 (maxPages cfg) \<and>
   length (queue (enqueueLinks e cfg doc b d s)) + pagesVisited s
     \<le> max (length (queue s) + pagesVisited s) (maxPages cfg) \<and>
   pagesVisited (enqueueLinks e cfg doc b d s) = pagesVisited s \<and>
   visited (enqueueLinks e cfg doc b d s) = visited s"
  using session_inv_run [of cfg e evs] enqueueLinks_budget [of e cfg doc b d s]
  unfolding session_inv_def by simp

theorem frontier_budget_witness:
  "length (queue restarted_in_flight) = maxPages (site_config 2 3)"
proof -
  have "length (queue restarted_in_flight) \<le> max 1 (maxPages (site_config 2 3))"
    unfolding restarted_in_flight_def using frontier_budget by blast
  moreover have "3 \<le> length (queue restarted_in_flight)"
    unfolding restarted_in_flight_def by code_simp
  ultimately show ?thesis by (simp add: site_config_def)
qed

text \<open>
  The claim as it was stated fails: with a budget of one page the seed is queued and
  the starting page visited, two against a budget of one.
\<close>

theorem frontier_budget_counterexample:
  "\<not> length (visited (started 2 1 [])) + length (queue (started 2 1 [])) \<le> maxPages (site_config 2 1)"
  unfolding started_def by code_simp

text \<open>
  The visited set and the queue together have no bound of the kind: a visit that is
  suspended when the session is started again refills the queue of the new session
  and adds its page, and the new capture adds the starting page. With a budget of
  three pages, two are visited and three queued.
\<close>

lemma restart_in_flight_overshoots:
  "length (visited restarted_in_flight) = 2 \<and> length (queue restarted_in_flight) = 3"
  unfolding restarted_in_flight_def by code_simp

text \<open>
  C3. With a budget of zero \<^verbatim>\<open>startCrawl\<close> still captures the starting page:
  \<^verbatim>\<open>crawlCurrentPage\<close> does not look at \<^verbatim>\<open>CONFIG.maxPages\<close>, and the visited set then
  has one element.
\<close>

theorem visited_exceeds_zero_budget:
  "maxPages (site_config 2 0) = 0 \<and> length (visited (started 2 0 [])) = 1"
  unfolding started_def by code_simp

subsection \<open>What is not queued\<close>

lemma enqueue_anchor_rejected:
  assumes "URL_new e h b = Some u"
    and "\<not> isAllowedUrl e s (normalizeUrl e (href u)) \<or>
         Set_has (visited s) (normalizeUrl e (href u)) \<or>
         list_ex (\<lambda>item. url item = normalizeUrl e (href u)) (queue s) \<or>
         maxPages cfg \<le> length (queue s) + pagesVisited s"
  shows "enqueue_anchor e cfg b d s h = s"
  using assms by (auto simp: enqueue_anchor_def Let_def)

lemma enqueue_anchor_accepted:
  assumes "h \<noteq> []" "\<not> startsWith h ''javascript:''" "\<not> startsWith h ''mailto:''"
    and "URL_new e h b = Some u"
    and "isAllowedUrl e s (normalizeUrl e (href u))"
    and "\<not> Set_has (visited s) (normalizeUrl e (href u))"
    and "\<not> list_ex (\<lambda>item. url item = normalizeUrl e (href u)) (queue s)"
    and "length (queue s) + pagesVisited s < maxPages cfg"
  shows "enqueue_anchor e cfg b d s h =
           s\<lparr>queue := queue s @ [\<lparr>url = normalizeUrl e (href u), depth = d + 1\<rparr>]\<rparr>"
  using assms by (simp add: enqueue_anchor_def Let_def)

text \<open>
  C4. \<^verbatim>\<open>enqueueLinks\<close> queues nothing when the links would have a depth above
  \<^verbatim>\<open>CONFIG.maxDepth\<close>. For one link it leaves the state as it is when the allowlist
  rejects the address, when the address is visited, when it is queued, and when the
  queue and the counter of visited pages have reached \<^verbatim>\<open>CONFIG.maxPages\<close>. So every
  entry of the queue, in every state of a session, has a depth of at most
  \<^verbatim>\<open>CONFIG.maxDepth\<close>; and the loop drops, without visiting it, an entry that is
  deeper.
\<close>

theorem enqueue_rejections:
  "(maxDepth cfg < d + 1 \<longrightarrow> enqueueLinks e cfg doc b d s = s) \<and>
   (URL_new e h b = Some u \<and>
      (\<not> isAllowedUrl e s (normalizeUrl e (href u)) \<or>
       Set_has (visited s) (normalizeUrl e (href u)) \<or>
       list_ex (\<lambda>item. url item = normalizeUrl e (href u)) (queue s) \<or>
       maxPages cfg \<le> length (queue s) + pagesVisited s)
      \<longrightarrow> enqueue_anchor e cfg b d s h = s) \<and>
   (\<forall>it \<in> set (queue (run e cfg evs)). depth it \<le> maxDepth cfg) \<and>
   (maxDepth cfg < depth item \<longrightarrow>
      runQueue_body e cfg pageData t (s\<lparr>queue := item # rest\<rparr>) = s\<lparr>queue := rest\<rparr>)"
proof (intro conjI impI)
  assume "maxDepth cfg < d + 1"
  then show "enqueueLinks e cfg doc b d s = s" by (simp add: enqueueLinks_def)
next
  assume r: "URL_new e h b = Some u \<and>
      (\<not> isAllowedUrl e s (normalizeUrl e (href u)) \<or>
       Set_has (visited s) (normalizeUrl e (href u)) \<or>
       list_ex (\<lambda>item. url item = normalizeUrl e (href u)) (queue s) \<or>
       maxPages cfg \<le> length (queue s) + pagesVisited s)"
  then show "enqueue_anchor e cfg b d s h = s"
    by (intro enqueue_anchor_rejected [of e h b u]) blast+
next
  show "\<forall>it \<in> set (queue (run e cfg evs)). depth it \<le> maxDepth cfg"
    using session_inv_run [of cfg e evs] unfolding session_inv_def by blast
next
  assume "maxDepth cfg < depth item"
  then show "runQueue_body e cfg pageData t (s\<lparr>queue := item # rest\<rparr>) = s\<lparr>queue := rest\<rparr>"
    by (rule runQueue_body_deep_head)
qed

theorem enqueue_rejections_witness:
  "enqueueLinks site (site_config 1 50) [''https://a.test/2''] ''https://a.test/1'' 1
     (started 1 50 [''https://a.test/1'']) = started 1 50 [''https://a.test/1''] \<and>
   enqueue_anchor site (site_config 1 50) ''https://a.test/'' 0 (started 1 50 [''https://a.test/1''])
     ''https://b.test/'' = started 1 50 [''https://a.test/1''] \<and>
   enqueue_anchor site (site_config 1 50) ''https://a.test/'' 0 (started 1 50 [''https://a.test/1''])
     ''https://a.test/'' = started 1 50 [''https://a.test/1''] \<and>
   enqueue_anchor site (site_config 1 50) ''https://a.test/'' 0 (started 1 50 [''https://a.test/1''])
     ''https://a.test/1'' = started 1 50 [''https://a.test/1''] \<and>
   enqueue_anchor site (site_config 1 2) ''https://a.test/'' 0 (started 1 2 [''https://a.test/1''])
     ''https://a.test/2'' = started 1 2 [''https://a.test/1''] \<and>
   runQueue_body site (site_config 1 50) (Some (site_page [])) downloads_only
     ((started 1 50 [''https://a.test/1''])\<lparr>queue := [\<lparr>url = ''https://a.test/3'', depth = 2\<rparr>]\<rparr>)
     = (started 1 50 [''https://a.test/1''])\<lparr>queue := []\<rparr> \<and>
   depth (last (queue (started 1 50 [''https://a.test/1'']))) \<le> maxDepth (site_config 1 50)"
proof -
  let ?s = "started 1 50 [''https://a.test/1'']"
  let ?full = "started 1 2 [''https://a.test/1'']"
  let ?A = "\<lparr>href = ''https://a.test/'', origin = ''https://a.test'', hostname = ''a.test''\<rparr>"
  let ?A1 = "\<lparr>href = ''https://a.test/1'', origin = ''https://a.test'', hostname = ''a.test''\<rparr>"
  let ?A2 = "\<lparr>href = ''https://a.test/2'', origin = ''https://a.test'', hostname = ''a.test''\<rparr>"
  let ?B = "\<lparr>href = ''https://b.test/'', origin = ''https://b.test'', hostname = ''b.test''\<rparr>"
  let ?deep = "\<lparr>url = ''https://a.test/3'', depth = 2\<rparr>"
  note here = enqueue_rejections [of "site_config 1 50" _ site _ _ ?s _ _
      "[Start 0, Resume 0 (Page_result (Some (site_page [''https://a.test/1''])) downloads_only),
        Resume 0 Output_settled]" ?deep
      "Some (site_page [])" downloads_only "[]"]
  have "maxDepth (site_config 1 50) < 1 + 1" by code_simp
  with here [of 1 "[''https://a.test/2'']" "''https://a.test/1''"]
  have deep: "enqueueLinks site (site_config 1 50) [''https://a.test/2''] ''https://a.test/1'' 1 ?s = ?s"
    by blast
  have "URL_new site ''https://b.test/'' ''https://a.test/'' = Some ?B \<and>
        \<not> isAllowedUrl site ?s (normalizeUrl site (href ?B))"
    unfolding started_def by code_simp
  with here [of 0 _ "''https://a.test/''" "''https://b.test/''" ?B]
  have foreign: "enqueue_anchor site (site_config 1 50) ''https://a.test/'' 0 ?s ''https://b.test/'' = ?s"
    by blast
  have "URL_new site ''https://a.test/'' ''https://a.test/'' = Some ?A \<and>
        Set_has (visited ?s) (normalizeUrl site (href ?A))"
    unfolding started_def by code_simp
  with here [of 0 _ "''https://a.test/''" "''https://a.test/''" ?A]
  have seen: "enqueue_anchor site (site_config 1 50) ''https://a.test/'' 0 ?s ''https://a.test/'' = ?s"
    by blast
  have "URL_new site ''https://a.test/1'' ''https://a.test/'' = Some ?A1 \<and>
        list_ex (\<lambda>item. url item = normalizeUrl site (href ?A1)) (queue ?s)"
    unfolding started_def by code_simp
  with here [of 0 _ "''https://a.test/''" "''https://a.test/1''" ?A1]
  have queued: "enqueue_anchor site (site_config 1 50) ''https://a.test/'' 0 ?s ''https://a.test/1'' = ?s"
    by blast
  have "URL_new site ''https://a.test/2'' ''https://a.test/'' = Some ?A2 \<and>
        maxPages (site_config 1 2) \<le> length (queue ?full) + pagesVisited ?full"
    unfolding started_def by code_simp
  with enqueue_rejections [of "site_config 1 2" 0 site _ "''https://a.test/''" ?full
      "''https://a.test/2''" ?A2]
  have full: "enqueue_anchor site (site_config 1 2) ''https://a.test/'' 0 ?full ''https://a.test/2'' = ?full"
    by blast
  have "maxDepth (site_config 1 50) < depth ?deep" by code_simp
  with here have dropped: "runQueue_body site (site_config 1 50) (Some (site_page [])) downloads_only
      (?s\<lparr>queue := [?deep]\<rparr>) = ?s\<lparr>queue := []\<rparr>"
    by blast
  have "last (queue ?s) \<in> set (queue ?s)"
    unfolding started_def by code_simp
  with here have shallow: "depth (last (queue ?s)) \<le> maxDepth (site_config 1 50)"
    unfolding started_def by blast
  from deep foreign seen queued full dropped shallow show ?thesis by blast
qed

subsection \<open>The allowlist\<close>

lemma allowlist_item_test_iff:
  "allowlist_item_test e target item =
     (item \<noteq> [] \<and>
      (if is_regex_item item
       then (\<exists>regex_test. RegExp_new e (slice_1_m1 item) = Some regex_test \<and> regex_test (hostname target))
       else hostname target = item))"
  by (auto simp: allowlist_item_test_def is_regex_item_def split: option.splits)

text \<open>
  C5, amended. \<^verbatim>\<open>isAllowedUrl\<close> returns true exactly when the address parses, its
  origin is the starting origin, and its hostname matches an entry of the allowlist
  that is not empty: an entry that starts and ends with \<^verbatim>\<open>/\<close> and has more than two
  characters is compiled to a regular expression (what stands between the two
  \<^verbatim>\<open>/\<close>) and tested on the hostname, and every other entry must equal the hostname.
  An address of another origin is rejected whatever the allowlist holds.
\<close>

theorem isAllowedUrl_iff:
  "isAllowedUrl e s u =
     (\<exists>target. URL_new e u (location_href e) = Some target \<and>
        origin target = location_origin e \<and>
        (\<exists>item \<in> set (allowlist s). item \<noteq> [] \<and>
           (if is_regex_item item
            then (\<exists>regex_test. RegExp_new e (slice_1_m1 item) = Some regex_test \<and>
                    regex_test (hostname target))
            else hostname target = item))) \<and>
   (URL_new e u (location_href e) = Some target \<and> origin target \<noteq> location_origin e
      \<longrightarrow> \<not> isAllowedUrl e s u)"
  by (auto simp: isAllowedUrl_def list_ex_iff allowlist_item_test_iff split: option.splits)

theorem isAllowedUrl_iff_witness:
  "isAllowedUrl site (with_allowlist [''/test$/'']) ''https://a.test/1'' \<and>
   \<not> isAllowedUrl site (with_allowlist [''test'']) ''https://a.test/1'' \<and>
   \<not> isAllowedUrl site (with_allowlist [''b.test'', ''/test$/'']) ''https://b.test/''"
proof -
  let ?A1 = "\<lparr>href = ''https://a.test/1'', origin = ''https://a.test'', hostname = ''a.test''\<rparr>"
  let ?B = "\<lparr>href = ''https://b.test/'', origin = ''https://b.test'', hostname = ''b.test''\<rparr>"
  have parsed: "URL_new site ''https://a.test/1'' (location_href site) = Some ?A1"
    by code_simp
  have same: "origin ?A1 = location_origin site" by code_simp
  have pattern: "is_regex_item ''/test$/''" by code_simp
  have compiled: "RegExp_new site (slice_1_m1 ''/test$/'') = Some (\<lambda>h. endsWith h ''test'')"
    by (simp add: site_def site_RegExp_def slice_1_m1_def)
  have hit: "endsWith (hostname ?A1) ''test''" by code_simp
  have member: "''/test$/'' \<in> set (allowlist (with_allowlist [''/test$/'']))"
    by (simp add: with_allowlist_def)
  have "\<exists>target. URL_new site ''https://a.test/1'' (location_href site) = Some target \<and>
        origin target = location_origin site \<and>
        (\<exists>item \<in> set (allowlist (with_allowlist [''/test$/''])). item \<noteq> [] \<and>
           (if is_regex_item item
            then (\<exists>regex_test. RegExp_new site (slice_1_m1 item) = Some regex_test \<and>
                    regex_test (hostname target))
            else hostname target = item))"
    using parsed same pattern compiled hit member by (intro exI [of _ ?A1] conjI bexI [of _ "''/test$/''"]) auto
  with isAllowedUrl_iff [of site "with_allowlist [''/test$/'']" "''https://a.test/1''"]
  have yes: "isAllowedUrl site (with_allowlist [''/test$/'']) ''https://a.test/1''"
    by blast
  have no: "\<not> isAllowedUrl site (with_allowlist [''test'']) ''https://a.test/1''"
    by code_simp
  have "URL_new site ''https://b.test/'' (location_href site) = Some ?B \<and>
        origin ?B \<noteq> location_origin site"
    by code_simp
  with isAllowedUrl_iff [of site _ "''https://b.test/''" ?B]
  have "\<not> isAllowedUrl site (with_allowlist [''b.test'', ''/test$/'']) ''https://b.test/''"
    by blast
  with yes no show ?thesis by blast
qed

text \<open>
  The claim as it was stated fails on the entry \<^verbatim>\<open>//\<close>: delimited by two \<^verbatim>\<open>/\<close>, it
  would be the empty pattern, which matches every hostname; \<^verbatim>\<open>isAllowedUrl\<close> asks for
  more than two characters and compares \<^verbatim>\<open>//\<close> with the hostname as a literal.
\<close>

theorem empty_pattern_counterexample:
  "isAllowed_claimed site (with_allowlist [''//'']) ''https://a.test/1'' \<and>
   \<not> isAllowedUrl site (with_allowlist [''//'']) ''https://a.test/1''"
  by code_simp

lemma malformed_item_no_match:
  "is_regex_item bad \<Longrightarrow> RegExp_new e (slice_1_m1 bad) = None \<Longrightarrow>
   \<not> allowlist_item_test e target bad"
  by (simp add: allowlist_item_test_def is_regex_item_def)

lemma isAllowedUrl_without_malformed:
  assumes "is_regex_item bad" "RegExp_new e (slice_1_m1 bad) = None"
  shows "isAllowedUrl e (s\<lparr>allowlist := xs @ bad # ys\<rparr>) u = isAllowedUrl e (s\<lparr>allowlist := xs @ ys\<rparr>) u"
  using malformed_item_no_match [OF assms]
  by (auto simp: isAllowedUrl_def list_ex_iff split: option.splits)

lemma enqueue_anchor_allowlist:
  assumes "\<And>u. isAllowedUrl e (s\<lparr>allowlist := al\<rparr>) u = isAllowedUrl e (s\<lparr>allowlist := al'\<rparr>) u"
  shows "enqueue_anchor e cfg b d (s\<lparr>allowlist := al\<rparr>) h
         = (enqueue_anchor e cfg b d (s\<lparr>allowlist := al'\<rparr>) h)\<lparr>allowlist := al\<rparr>"
  using assms by (simp add: enqueue_anchor_def Let_def split: option.splits)

lemma isAllowedUrl_queue [simp]:
  "isAllowedUrl e (s\<lparr>queue := q\<rparr>) u = isAllowedUrl e s u"
  by (simp add: isAllowedUrl_def split: option.splits)

lemma enqueue_anchor_keeps_allowlist:
  "allowlist (enqueue_anchor e cfg b d s h) = allowlist s"
  using enqueue_anchor_cases [of e cfg b d s h] by auto

lemma foldl_enqueue_anchor_allowlist:
  assumes same: "\<And>s u. isAllowedUrl e (s\<lparr>allowlist := al\<rparr>) u = isAllowedUrl e (s\<lparr>allowlist := al'\<rparr>) u"
  shows "foldl (enqueue_anchor e cfg b d) (s\<lparr>allowlist := al\<rparr>) doc
         = (foldl (enqueue_anchor e cfg b d) (s\<lparr>allowlist := al'\<rparr>) doc)\<lparr>allowlist := al\<rparr>"
proof (induction doc arbitrary: s)
  case Nil
  show ?case by simp
next
  case (Cons h doc)
  let ?n = "enqueue_anchor e cfg b d (s\<lparr>allowlist := al'\<rparr>) h"
  have keep: "allowlist ?n = al'"
    by (simp add: enqueue_anchor_keeps_allowlist)
  then have again: "?n\<lparr>allowlist := al'\<rparr> = ?n" by simp
  have "foldl (enqueue_anchor e cfg b d) (s\<lparr>allowlist := al\<rparr>) (h # doc)
        = foldl (enqueue_anchor e cfg b d) (?n\<lparr>allowlist := al\<rparr>) doc"
    by (simp add: enqueue_anchor_allowlist [OF same])
  also have "\<dots> = (foldl (enqueue_anchor e cfg b d) (?n\<lparr>allowlist := al'\<rparr>) doc)\<lparr>allowlist := al\<rparr>"
    by (rule Cons.IH)
  finally show ?case by (simp add: again)
qed

lemma enqueueLinks_without_malformed:
  assumes "is_regex_item bad" "RegExp_new e (slice_1_m1 bad) = None"
  shows "enqueueLinks e cfg doc b d (s\<lparr>allowlist := xs @ bad # ys\<rparr>)
         = (enqueueLinks e cfg doc b d (s\<lparr>allowlist := xs @ ys\<rparr>))\<lparr>allowlist := xs @ bad # ys\<rparr>"
  unfolding enqueueLinks_def
  using foldl_enqueue_anchor_allowlist [where al = "xs @ bad # ys" and al' = "xs @ ys",
      OF isAllowedUrl_without_malformed [OF assms]]
  by simp

text \<open>
  C6. An entry of the allowlist that is a malformed pattern (\<^verbatim>\<open>new RegExp\<close> throws on
  it) matches no hostname, and nothing is thrown out of \<^verbatim>\<open>isAllowedUrl\<close>: with the
  entry the function returns what it returns for the allowlist without it, so the
  other entries are matched as before; and \<^verbatim>\<open>enqueueLinks\<close> queues the same links
  with it as without it.
\<close>

theorem malformed_pattern_ignored:
  "is_regex_item bad \<and> RegExp_new e (slice_1_m1 bad) = None \<longrightarrow>
     \<not> allowlist_item_test e target bad \<and>
     isAllowedUrl e (s\<lparr>allowlist := xs @ bad # ys\<rparr>) u = isAllowedUrl e (s\<lparr>allowlist := xs @ ys\<rparr>) u \<and>
     enqueueLinks e cfg doc b d (s\<lparr>allowlist := xs @ bad # ys\<rparr>)
       = (enqueueLinks e cfg doc b d (s\<lparr>allowlist := xs @ ys\<rparr>))\<lparr>allowlist := xs @ bad # ys\<rparr>"
  using malformed_item_no_match [where bad = bad and e = e and target = target]
    isAllowedUrl_without_malformed [where bad = bad and e = e and s = s and xs = xs and ys = ys and u = u]
    enqueueLinks_without_malformed [where bad = bad and e = e and s = s and xs = xs and ys = ys
      and cfg = cfg and doc = doc and b = b and d = d]
  by blast

theorem malformed_pattern_ignored_witness:
  "is_regex_item ''/(/'' \<and> RegExp_new site (slice_1_m1 ''/(/'') = None \<and>
   isAllowedUrl site (with_allowlist [''/(/'', ''a.test'']) ''https://a.test/1'' \<and>
   \<not> isAllowedUrl site (with_allowlist [''/(/'']) ''https://a.test/1''"
proof -
  have bad: "is_regex_item ''/(/'' \<and> RegExp_new site (slice_1_m1 ''/(/'') = None"
    by code_simp
  have rest: "isAllowedUrl site ((with_allowlist [])\<lparr>allowlist := [] @ [''a.test'']\<rparr>) ''https://a.test/1''"
    by code_simp
  have none: "\<not> isAllowedUrl site ((with_allowlist [])\<lparr>allowlist := [] @ []\<rparr>) ''https://a.test/1''"
    by code_simp
  have unfold: "with_allowlist items = (with_allowlist [])\<lparr>allowlist := items\<rparr>" for items
    by (simp add: with_allowlist_def)
  from malformed_pattern_ignored [where bad = "''/(/''" and e = site and s = "with_allowlist []"
      and xs = "[]" and ys = "[''a.test'']" and u = "''https://a.test/1''"] bad rest
  have kept: "isAllowedUrl site (with_allowlist [''/(/'', ''a.test'']) ''https://a.test/1''"
    by (simp add: unfold [of "[''/(/'', ''a.test'']"])
  from malformed_pattern_ignored [where bad = "''/(/''" and e = site and s = "with_allowlist []"
      and xs = "[]" and ys = "[]" and u = "''https://a.test/1''"] bad none
  have alone: "\<not> isAllowedUrl site (with_allowlist [''/(/'']) ''https://a.test/1''"
    by (simp add: unfold [of "[''/(/'']"])
  from bad kept alone show ?thesis by blast
qed

subsection \<open>Delivery\<close>

lemma String_of_length: "0 < k \<Longrightarrow> n < 10 ^ k \<Longrightarrow> length (String_of n) \<le> k"
proof (induction k arbitrary: n)
  case 0
  then show ?case by simp
next
  case (Suc k)
  show ?case
  proof (cases "n < 10")
    case True
    then show ?thesis by (subst String_of.simps) simp
  next
    case False
    with Suc.prems have k: "0 < k" by (cases k) auto
    from Suc.prems have "n div 10 < 10 ^ k" by (simp add: less_mult_imp_div_less mult.commute)
    with k have "length (String_of (n div 10)) \<le> k" by (rule Suc.IH)
    with False show ?thesis by (subst String_of.simps) simp
  qed
qed

lemma page_index_length:
  "4 \<le> length (page_index s) \<and> (pagesVisited s + 1 < 10000 \<longrightarrow> length (page_index s) = 4)"
  using String_of_length [of 4 "pagesVisited s + 1"]
  by (auto simp: page_index_def padStart_def)

lemma gmPost_effects: "fst (gmPost t) = [] \<or> fst (gmPost t) = [GM_request]"
  by (simp add: gmPost_def split: option.splits http_outcome.splits)

lemma postPayload_failed:
  assumes "postEndpoint cfg \<noteq> []" "fetch_failed t" "snd (gmPost t) = Inl Error"
  shows "postPayload cfg t = (Fetch_request # fst (gmPost t), False)"
  using assms
  by (cases "gmPost t") (auto simp: postPayload_def fetch_failed_def split: http_outcome.splits sum.splits)

text \<open>
  C9, amended. Where an endpoint is configured, the direct POST and the privileged
  POST both fail, and the two downloads succeed, \<^verbatim>\<open>handleOutput\<close> resolves and saves
  exactly two files, the markup and then the image, named \<^verbatim>\<open>page-\<close>, the index and
  \<^verbatim>\<open>.html\<close> or \<^verbatim>\<open>.png\<close>. The index is the counter of visited pages plus one, in
  decimal, padded with zeros on the left to four characters: it has four digits
  while that number is below 10000 and more from there on. At most two requests are
  sent to the endpoint.
\<close>

theorem delivery_falls_back_to_files:
  "postEndpoint cfg \<noteq> [] \<and> fetch_failed t \<and> snd (gmPost t) = Inl Error \<and>
   gmDownload t (''page-'' @ page_index s @ ''.html'') \<and>
   gmDownload t (''page-'' @ page_index s @ ''.png'')
   \<longrightarrow>
     snd (handleOutput cfg t s (Some p)) = Inr () \<and>
     persisted (fst (handleOutput cfg t s (Some p)))
       = [''page-'' @ page_index s @ ''.html'', ''page-'' @ page_index s @ ''.png''] \<and>
     network_attempts (fst (handleOutput cfg t s (Some p))) \<le> 2 \<and>
     4 \<le> length (page_index s) \<and>
     (pagesVisited s + 1 < 10000 \<longrightarrow> length (page_index s) = 4)"
proof (intro impI)
  assume h: "postEndpoint cfg \<noteq> [] \<and> fetch_failed t \<and> snd (gmPost t) = Inl Error \<and>
   gmDownload t (''page-'' @ page_index s @ ''.html'') \<and>
   gmDownload t (''page-'' @ page_index s @ ''.png'')"
  then have post: "postPayload cfg t = (Fetch_request # fst (gmPost t), False)"
    by (intro postPayload_failed) simp_all
  from h have files: "downloadPayload t (''page-'' @ page_index s @ ''.html'') (''page-'' @ page_index s @ ''.png'')
      = ([Saved (''page-'' @ page_index s @ ''.html''), Saved (''page-'' @ page_index s @ ''.png'')], Inr ())"
    by (simp add: downloadPayload_def)
  from h post files have out: "handleOutput cfg t s (Some p)
      = (Fetch_request # fst (gmPost t) @
          [Saved (''page-'' @ page_index s @ ''.html''), Saved (''page-'' @ page_index s @ ''.png'')], Inr ())"
    by (simp add: handleOutput_def Let_def page_index_def)
  show "snd (handleOutput cfg t s (Some p)) = Inr () \<and>
     persisted (fst (handleOutput cfg t s (Some p)))
       = [''page-'' @ page_index s @ ''.html'', ''page-'' @ page_index s @ ''.png''] \<and>
     network_attempts (fst (handleOutput cfg t s (Some p))) \<le> 2 \<and>
     4 \<le> length (page_index s) \<and>
     (pagesVisited s + 1 < 10000 \<longrightarrow> length (page_index s) = 4)"
    using gmPost_effects [of t] page_index_length [of s]
    by (auto simp: out persisted_def network_attempts_def)
qed

theorem delivery_falls_back_to_files_witness:
  "persisted (fst (handleOutput sink_config (refusing (\<lambda>name. True))
      (started 2 50 []) (Some (page_payload (site_page [])))))
     = [''page-0002.html'', ''page-0002.png''] \<and>
   network_attempts (fst (handleOutput sink_config (refusing (\<lambda>name. True))
      (started 2 50 []) (Some (page_payload (site_page []))))) = 2"
proof -
  let ?out = "handleOutput sink_config (refusing (\<lambda>name. True)) (started 2 50 [])
      (Some (page_payload (site_page [])))"
  have idx: "page_index (started 2 50 []) = ''0002''"
    unfolding started_def by code_simp
  have "postEndpoint sink_config \<noteq> [] \<and> fetch_failed (refusing (\<lambda>name. True)) \<and>
      snd (gmPost (refusing (\<lambda>name. True))) = Inl Error \<and>
      gmDownload (refusing (\<lambda>name. True)) (''page-'' @ page_index (started 2 50 []) @ ''.html'') \<and>
      gmDownload (refusing (\<lambda>name. True)) (''page-'' @ page_index (started 2 50 []) @ ''.png'')"
    unfolding started_def by code_simp
  with delivery_falls_back_to_files [of sink_config "refusing (\<lambda>name. True)" "started 2 50 []"
      "page_payload (site_page [])"]
  have files: "persisted (fst ?out) = [''page-0002.html'', ''page-0002.png'']"
    and few: "network_attempts (fst ?out) \<le> 2"
    by (simp_all add: idx)
  have "2 \<le> network_attempts (fst ?out)"
    unfolding started_def by code_simp
  with files few show ?thesis by simp
qed

text \<open>
  The claim as it was stated fails where a download fails: \<^verbatim>\<open>downloadPayload\<close> awaits
  the markup before it starts the image, so when the markup cannot be saved no file
  is saved at all, and the promise of \<^verbatim>\<open>handleOutput\<close> rejects.
\<close>

theorem failed_download_counterexample:
  "postEndpoint sink_config \<noteq> [] \<and>
   fetch_failed (refusing (\<lambda>name. name \<noteq> ''page-0002.html'')) \<and>
   snd (gmPost (refusing (\<lambda>name. name \<noteq> ''page-0002.html''))) = Inl Error \<and>
   persisted (fst (handleOutput sink_config (refusing (\<lambda>name. name \<noteq> ''page-0002.html''))
      (started 2 50 []) (Some (page_payload (site_page []))))) = [] \<and>
   snd (handleOutput sink_config (refusing (\<lambda>name. name \<noteq> ''page-0002.html''))
      (started 2 50 []) (Some (page_payload (site_page [])))) = Inl Error"
  unfolding started_def by code_simp

end
